theory Spec2Isabelle
  imports Complex_Main
begin

chapter \<open>The program\<close>

section \<open>Python values used by the model\<close>

text \<open>
  The program is \<^verbatim>\<open>watts_strogatz_model.py\<close>. Vertices, counts and
  distances are Python integers (\<open>int\<close>); an edge is a Python tuple of two
  integers; a list is a HOL list. The exceptions the code can raise are values.
\<close>

datatype error = IndexError | ValueError | ZeroDivisionError | TypeError

text \<open>
  Python list indexing \<^verbatim>\<open>xs[i]\<close>: an index in \<open>[0, len)\<close> is taken as it
  is, an index in \<open>[-len, 0)\<close> counts from the end, anything else raises
  IndexError. \<open>py_index\<close> gives the position an index denotes.
\<close>

definition py_index :: "nat \<Rightarrow> int \<Rightarrow> error + nat" where
  "py_index n i =
     (if 0 \<le> i \<and> i < int n then Inr (nat i)
      else if - int n \<le> i \<and> i < 0 then Inr (nat (i + int n))
      else Inl IndexError)"

definition getitem :: "'a list \<Rightarrow> int \<Rightarrow> error + 'a" where
  "getitem xs i =
     (case py_index (length xs) i of Inl e \<Rightarrow> Inl e | Inr k \<Rightarrow> Inr (xs ! k))"

definition setitem :: "'a list \<Rightarrow> int \<Rightarrow> 'a \<Rightarrow> error + 'a list" where
  "setitem xs i v =
     (case py_index (length xs) i of Inl e \<Rightarrow> Inl e | Inr k \<Rightarrow> Inr (xs[k := v]))"

text \<open>\<^verbatim>\<open>range(n)\<close> and \<^verbatim>\<open>range(a, b)\<close>; both are empty when the bound is not above the start.\<close>

definition py_range :: "int \<Rightarrow> int list" where
  "py_range n = [0..n - 1]"

definition py_range2 :: "int \<Rightarrow> int \<Rightarrow> int list" where
  "py_range2 a b = [a..b - 1]"

definition len :: "'a list \<Rightarrow> int" where
  "len xs = int (length xs)"

text \<open>
  A \<^verbatim>\<open>for\<close> loop whose body may raise: the first exception ends the loop and
  is the result.
\<close>

fun for_loop :: "('a \<Rightarrow> 's \<Rightarrow> error + 's) \<Rightarrow> 'a list \<Rightarrow> 's \<Rightarrow> error + 's" where
  "for_loop body [] s = Inr s"
| "for_loop body (x # xs) s =
     (case body x s of Inl e \<Rightarrow> Inl e | Inr s' \<Rightarrow> for_loop body xs s')"

section \<open>The Graph class\<close>

type_synonym edge = "int \<times> int"

record graph =
  num_vertices :: int
  edges :: "edge list"
  neighbors :: "int list list"
  all_possible_edges :: "edge list"

text \<open>\<^verbatim>\<open>self.neighbors[i].append(x)\<close>\<close>

definition append_at :: "int list list \<Rightarrow> int \<Rightarrow> int \<Rightarrow> error + int list list" where
  "append_at nbrs i x =
     (case py_index (length nbrs) i of
        Inl e \<Rightarrow> Inl e
      | Inr k \<Rightarrow> Inr (nbrs[k := nbrs ! k @ [x]]))"

text \<open>
  The body of \<^verbatim>\<open>for e in self.edges\<close> in \<^verbatim>\<open>__init__\<close> (lines 20 to 22):
  first \<^verbatim>\<open>neighbors[e[0]].append(e[1])\<close>, then \<^verbatim>\<open>neighbors[e[1]].append(e[0])\<close>.
\<close>

definition add_edge :: "edge \<Rightarrow> int list list \<Rightarrow> error + int list list" where
  "add_edge e nbrs =
     (case append_at nbrs (fst e) (snd e) of
        Inl err \<Rightarrow> Inl err
      | Inr nbrs' \<Rightarrow> append_at nbrs' (snd e) (fst e))"

text \<open>Lines 24 to 27: \<^verbatim>\<open>for a in range(num_vertices): for b in range(a): append((b, a))\<close>.\<close>

definition build_all_possible_edges :: "int \<Rightarrow> edge list" where
  "build_all_possible_edges n =
     concat (map (\<lambda>a. map (\<lambda>b. (b, a)) (py_range a)) (py_range n))"

text \<open>\<^verbatim>\<open>Graph(num_vertices, edges)\<close>: the constructor, lines 13 to 27.\<close>

definition Graph :: "int \<Rightarrow> edge list \<Rightarrow> error + graph" where
  "Graph n es =
     (case for_loop add_edge es (map (\<lambda>i. []) (py_range n)) of
        Inl err \<Rightarrow> Inl err
      | Inr nbrs \<Rightarrow>
          Inr \<lparr>num_vertices = n, edges = es, neighbors = nbrs,
               all_possible_edges = build_all_possible_edges n\<rparr>)"

text \<open>An edge sequence whose endpoints are all vertices \<open>0 .. n - 1\<close>.\<close>

definition in_range :: "int \<Rightarrow> edge list \<Rightarrow> bool" where
  "in_range n es = (\<forall>e \<in> set es. 0 \<le> fst e \<and> fst e < n \<and> 0 \<le> snd e \<and> snd e < n)"

section \<open>The geographic graph factory\<close>

text \<open>
  Lines 121 to 124, the body of the inner loop of \<^verbatim>\<open>make_graph\<close>: the edge
  appended for vertex \<open>i\<close> and preceding index \<open>j\<close>.
\<close>

definition make_graph_edge :: "int \<Rightarrow> int \<Rightarrow> int \<Rightarrow> edge" where
  "make_graph_edge n i j = (if j < 0 then (i, j + n) else (i, j))"

text \<open>Lines 118 to 124: \<^verbatim>\<open>for i in range(num_vertices): for j in range(i - separation, i)\<close>.\<close>

definition make_graph_edges :: "int \<Rightarrow> int \<Rightarrow> edge list" where
  "make_graph_edges n separation =
     concat (map (\<lambda>i. map (make_graph_edge n i) (py_range2 (i - separation) i)) (py_range n))"

definition make_graph :: "int \<Rightarrow> int \<Rightarrow> error + graph" where
  "make_graph n separation = Graph n (make_graph_edges n separation)"

section \<open>Example graphs\<close>

text \<open>The ring of six vertices, the triangle, the single edge and the ring of three.\<close>

definition ring6 :: graph where
  "ring6 = \<lparr>num_vertices = 6, edges = [(0, 5), (1, 0), (2, 1), (3, 2), (4, 3), (5, 4)],
     neighbors = [[5, 1], [0, 2], [1, 3], [2, 4], [3, 5], [0, 4]],
     all_possible_edges =
       [(0, 1), (0, 2), (1, 2), (0, 3), (1, 3), (2, 3), (0, 4), (1, 4),
        (2, 4), (3, 4), (0, 5), (1, 5), (2, 5), (3, 5), (4, 5)]\<rparr>"

definition triangle :: graph where
  "triangle = \<lparr>num_vertices = 3, edges = [(0, 1), (0, 2), (1, 2)],
     neighbors = [[1, 2], [0, 2], [0, 1]],
     all_possible_edges = [(0, 1), (0, 2), (1, 2)]\<rparr>"

definition single_edge :: graph where
  "single_edge = \<lparr>num_vertices = 2, edges = [(0, 1)], neighbors = [[1], [0]],
     all_possible_edges = [(0, 1)]\<rparr>"

definition ring3 :: graph where
  "ring3 = \<lparr>num_vertices = 3, edges = [(0, 2), (1, 0), (2, 1)],
     neighbors = [[2, 1], [0, 2], [0, 1]],
     all_possible_edges = [(0, 1), (0, 2), (1, 2)]\<rparr>"

definition kite :: graph where
  "kite = \<lparr>num_vertices = 4, edges = [(0, 1), (0, 2), (0, 3), (1, 2), (1, 3)],
     neighbors = [[1, 2, 3], [0, 2, 3], [0, 1], [0, 1]],
     all_possible_edges = [(0, 1), (0, 2), (1, 2), (0, 3), (1, 3), (2, 3)]\<rparr>"

section \<open>The clustering coefficient\<close>

text \<open>
  Python's \<^verbatim>\<open>/\<close> on numbers. The program computes its averages in floating
  point; the model computes them exactly, in the rationals, so every statement about an
  average below is a statement about the exact value of the formula the code evaluates.
\<close>

definition truediv :: "rat \<Rightarrow> rat \<Rightarrow> error + rat" where
  "truediv a b = (if b = 0 then Inl ZeroDivisionError else Inr (a / b))"

text \<open>
  Lines 35 to 38, the body of the innermost loop of \<^verbatim>\<open>clustering_coefficient\<close>:
  the test \<^verbatim>\<open>neighbors[i][k] in neighbors[neighbors[i][j]]\<close> and the two updates.
\<close>

definition cc_update :: "graph \<Rightarrow> int \<Rightarrow> int \<Rightarrow> int \<Rightarrow> rat \<Rightarrow> error + rat" where
  "cc_update g i j k avg_cluster =
     (case getitem (neighbors g) i of Inl e \<Rightarrow> Inl e | Inr ni \<Rightarrow>
      case getitem ni k of Inl e \<Rightarrow> Inl e | Inr x \<Rightarrow>
      case getitem ni j of Inl e \<Rightarrow> Inl e | Inr y \<Rightarrow>
      case getitem (neighbors g) y of Inl e \<Rightarrow> Inl e | Inr ny \<Rightarrow>
        if x \<in> set ny
        then truediv (of_int i * avg_cluster + 1) (of_int (i + 1))
        else truediv (avg_cluster * of_int i) (of_int (i + 1)))"

text \<open>Lines 30 to 39: the three nested loops, starting from \<open>avg_cluster = 0\<close>.\<close>

definition clustering_coefficient :: "graph \<Rightarrow> error + rat" where
  "clustering_coefficient g =
     for_loop (\<lambda>i avg_cluster.
         case getitem (neighbors g) i of Inl e \<Rightarrow> Inl e | Inr ni \<Rightarrow>
           for_loop (\<lambda>j. for_loop (cc_update g i j) (py_range j)) (py_range (len ni)) avg_cluster)
       (py_range (num_vertices g)) 0"

text \<open>
  The recurrence as the specification words it: for each vertex index \<open>i\<close> in turn,
  and for every pair of positions \<open>k < j\<close> of \<open>neighbors[i]\<close> (by \<open>j\<close>, then
  by \<open>k\<close>), the running value becomes \<open>(i * avg + 1) / (i + 1)\<close> on a closed
  triad and \<open>avg * i / (i + 1)\<close> otherwise. A triad is closed when
  \<open>neighbors[i][k]\<close> is a member of \<open>neighbors[neighbors[i][j]]\<close>.
\<close>

definition closed_triad :: "graph \<Rightarrow> nat \<Rightarrow> nat \<Rightarrow> nat \<Rightarrow> bool" where
  "closed_triad g i j k =
     (case getitem (neighbors g) (neighbors g ! i ! j) of
        Inl e \<Rightarrow> False
      | Inr nj \<Rightarrow> neighbors g ! i ! k \<in> set nj)"

definition triad_step :: "graph \<Rightarrow> nat \<Rightarrow> nat \<times> nat \<Rightarrow> rat \<Rightarrow> rat" where
  "triad_step g i kj avg =
     (if closed_triad g i (snd kj) (fst kj)
      then (of_nat i * avg + 1) / (of_nat i + 1)
      else avg * of_nat i / (of_nat i + 1))"

definition position_pairs :: "nat \<Rightarrow> (nat \<times> nat) list" where
  "position_pairs m = concat (map (\<lambda>j. map (\<lambda>k. (k, j)) [0..<j]) [0..<m])"

definition triad_recurrence :: "graph \<Rightarrow> rat" where
  "triad_recurrence g =
     fold (\<lambda>i. fold (triad_step g i) (position_pairs (length (neighbors g ! i))))
       [0..<nat (num_vertices g)] 0"

text \<open>
  What the constructor gives for an in-range edge sequence: one adjacency list per
  vertex, every entry a vertex, and a symmetric adjacency.
\<close>

definition wf_graph :: "graph \<Rightarrow> bool" where
  "wf_graph g =
     (length (neighbors g) = nat (num_vertices g) \<and>
      (\<forall>xs \<in> set (neighbors g). \<forall>x \<in> set xs. 0 \<le> x \<and> x < num_vertices g) \<and>
      (\<forall>u < nat (num_vertices g). \<forall>v < nat (num_vertices g).
          int u \<in> set (neighbors g ! v) \<longleftrightarrow> int v \<in> set (neighbors g ! u)))"

section \<open>Entries of the adjacency lists\<close>

text \<open>Every entry of every adjacency list is an index that \<open>neighbors[...]\<close> accepts.\<close>

definition valid_entries :: "int list list \<Rightarrow> bool" where
  "valid_entries nbrs =
     (\<forall>xs \<in> set nbrs. \<forall>x \<in> set xs. - int (length nbrs) \<le> x \<and> x < int (length nbrs))"

section \<open>The path explorer\<close>

text \<open>
  The dictionary \<^verbatim>\<open>shortest_lengths\<close> is a map from vertex to distance; the
  queue holds pairs of a vertex and its distance, oldest first.
\<close>

type_synonym lengths = "int \<rightharpoonup> int"

text \<open>
  Lines 52 to 57, \<^verbatim>\<open>for neighbor in self.neighbors[v[0]]\<close>: a neighbour that is not
  yet a key of the dictionary is put at the end of the queue and recorded with the
  distance \<open>v[1] + 1\<close>.
\<close>

fun visit :: "int list \<Rightarrow> int \<Rightarrow> (int \<times> int) list \<times> lengths \<Rightarrow> (int \<times> int) list \<times> lengths" where
  "visit [] d (queue, shortest_lengths) = (queue, shortest_lengths)"
| "visit (neighbor # rest) d (queue, shortest_lengths) =
     (if shortest_lengths neighbor = None
      then visit rest d (queue @ [(neighbor, d + 1)], shortest_lengths(neighbor \<mapsto> d + 1))
      else visit rest d (queue, shortest_lengths))"

text \<open>
  Facts the termination proof below rests on: an element read from a list is in the
  list, and the inner loop adds to the queue and to the dictionary exactly the
  neighbours that were not keys yet.
\<close>

lemma py_index_Inr: "py_index n i = Inr k \<Longrightarrow> k < n \<and> - int n \<le> i \<and> i < int n"
  by (auto simp: py_index_def split: if_splits)

lemma getitem_Inr: "getitem xs i = Inr x \<Longrightarrow> x \<in> set xs"
  by (auto simp: getitem_def split: sum.splits dest: py_index_Inr)

lemma visit_effect:
  "\<exists>ws. visit nbrs d (queue, sl) =
      (queue @ map (\<lambda>w. (w, d + 1)) ws, (\<lambda>x. if x \<in> set ws then Some (d + 1) else sl x)) \<and>
      set ws = set nbrs - dom sl"
proof (induction nbrs arbitrary: queue sl)
  case Nil
  show ?case by (rule exI [of _ "[]"]) simp
next
  case (Cons a nbrs)
  show ?case
  proof (cases "sl a = None")
    case True
    from Cons.IH [of "queue @ [(a, d + 1)]" "sl(a \<mapsto> d + 1)"] obtain ws where
      v: "visit nbrs d (queue @ [(a, d + 1)], sl(a \<mapsto> d + 1)) =
          ((queue @ [(a, d + 1)]) @ map (\<lambda>w. (w, d + 1)) ws,
           (\<lambda>x. if x \<in> set ws then Some (d + 1) else (sl(a \<mapsto> d + 1)) x))"
      and s: "set ws = set nbrs - dom (sl(a \<mapsto> d + 1))"
      by blast
    show ?thesis
    proof (intro exI [of _ "a # ws"] conjI)
      show "visit (a # nbrs) d (queue, sl) =
          (queue @ map (\<lambda>w. (w, d + 1)) (a # ws),
           (\<lambda>x. if x \<in> set (a # ws) then Some (d + 1) else sl x))"
        using True v by (auto simp: fun_eq_iff)
      show "set (a # ws) = set (a # nbrs) - dom sl"
        using True s by auto
    qed
  next
    case False
    from Cons.IH [of queue sl] obtain ws where
      v: "visit nbrs d (queue, sl) =
          (queue @ map (\<lambda>w. (w, d + 1)) ws, (\<lambda>x. if x \<in> set ws then Some (d + 1) else sl x))"
      and s: "set ws = set nbrs - dom sl"
      by blast
    show ?thesis
      using False v s by (intro exI [of _ ws]) auto
  qed
qed

text \<open>
  Lines 50 to 59, \<^verbatim>\<open>while not queue.empty()\<close>. The loop ends on every input:
  an iteration either records a new vertex out of the finitely many that occur in the
  adjacency lists, or leaves the dictionary alone and shortens the queue.
\<close>

function shortest_path_loop :: "graph \<Rightarrow> (int \<times> int) list \<Rightarrow> lengths \<Rightarrow> error + lengths" where
  "shortest_path_loop g [] shortest_lengths = Inr shortest_lengths"
| "shortest_path_loop g (v # queue) shortest_lengths =
     (case getitem (neighbors g) (fst v) of
        Inl e \<Rightarrow> Inl e
      | Inr nbrs \<Rightarrow>
          (case visit nbrs (snd v) (queue, shortest_lengths) of
             (queue', shortest_lengths') \<Rightarrow> shortest_path_loop g queue' shortest_lengths'))"
  by pat_completeness auto
termination
proof (relation "inv_image (less_than <*lex*> less_than)
    (\<lambda>(g, queue, sl). (card (set (concat (neighbors g)) - dom sl), length queue))")
  show "wf (inv_image (less_than <*lex*> less_than)
    (\<lambda>(g, queue, sl). (card (set (concat (neighbors g)) - dom sl), length queue)))"
    by (intro wf_inv_image wf_lex_prod wf_less_than)
next
  fix g :: graph and v :: "int \<times> int" and queue shortest_lengths nbrs x queue' sl'
  assume gi: "getitem (neighbors g) (fst v) = Inr nbrs"
    and vis: "(queue', sl') = visit nbrs (snd v) (queue, shortest_lengths)"
  let ?U = "set (concat (neighbors g))"
  from visit_effect [of nbrs "snd v" queue shortest_lengths] vis obtain ws where
    q': "queue' = queue @ map (\<lambda>w. (w, snd v + 1)) ws"
    and sl': "sl' = (\<lambda>x. if x \<in> set ws then Some (snd v + 1) else shortest_lengths x)"
    and ws: "set ws = set nbrs - dom shortest_lengths"
    by auto
  have sub: "set nbrs \<subseteq> ?U"
    using getitem_Inr [OF gi] by auto
  have dom': "dom sl' = dom shortest_lengths \<union> set ws"
    by (auto simp: sl' split: if_splits)
  show "((g, queue', sl'), (g, v # queue, shortest_lengths)) \<in>
      inv_image (less_than <*lex*> less_than)
        (\<lambda>(g, queue, sl). (card (set (concat (neighbors g)) - dom sl), length queue))"
  proof (cases "ws = []")
    case True
    then show ?thesis by (simp add: q' sl')
  next
    case False
    then obtain w where w: "w \<in> set ws" by (cases ws) auto
    with ws sub have "w \<in> ?U - dom shortest_lengths" "w \<notin> ?U - dom sl'"
      by (auto simp: dom')
    moreover have "?U - dom sl' \<subseteq> ?U - dom shortest_lengths"
      by (auto simp: dom')
    ultimately have "?U - dom sl' \<subset> ?U - dom shortest_lengths" by blast
    then have "card (?U - dom sl') < card (?U - dom shortest_lengths)"
      by (intro psubset_card_mono) simp_all
    then show ?thesis by simp
  qed
qed

text \<open>Lines 42 to 59: the queue starts as \<open>[(v1, 0)]\<close>, the dictionary as \<open>{v1: 0}\<close>.\<close>

definition shortest_path :: "graph \<Rightarrow> int \<Rightarrow> error + lengths" where
  "shortest_path g v1 = shortest_path_loop g [(v1, 0)] [v1 \<mapsto> 0]"

section \<open>Walks, distances and the invariant of the search\<close>

text \<open>
  Walks, reachability and distance in the graph the adjacency index describes:
  \<open>walk g k u v\<close> says that \<open>k\<close> steps along adjacency lists lead from \<open>u\<close>
  to \<open>v\<close>.
\<close>

definition adjacent :: "graph \<Rightarrow> int \<Rightarrow> int list" where
  "adjacent g u = (if 0 \<le> u \<and> u < num_vertices g then neighbors g ! nat u else [])"

fun walk :: "graph \<Rightarrow> nat \<Rightarrow> int \<Rightarrow> int \<Rightarrow> bool" where
  "walk g 0 u v = (u = v)"
| "walk g (Suc k) u v = (\<exists>w \<in> set (adjacent g u). walk g k w v)"

definition reachable :: "graph \<Rightarrow> int \<Rightarrow> int \<Rightarrow> bool" where
  "reachable g u v = (\<exists>k. walk g k u v)"

definition distance_is :: "graph \<Rightarrow> int \<Rightarrow> int \<Rightarrow> nat \<Rightarrow> bool" where
  "distance_is g u v d = (walk g d u v \<and> (\<forall>k < d. \<not> walk g k u v))"

text \<open>
  The loop invariant: the source is recorded with 0; every queued pair is recorded;
  every recorded distance is the length of a shortest walk from the source; the queue
  is sorted by distance and spans at most two consecutive distances; and every
  recorded vertex that has left the queue has all its neighbours recorded.
\<close>

definition bfs_inv :: "graph \<Rightarrow> int \<Rightarrow> (int \<times> int) list \<Rightarrow> lengths \<Rightarrow> bool" where
  "bfs_inv g s queue sl =
     (sl s = Some 0 \<and>
      (\<forall>(v, d) \<in> set queue. sl v = Some d) \<and>
      (\<forall>v d. sl v = Some d \<longrightarrow> 0 \<le> d \<and> distance_is g s v (nat d)) \<and>
      sorted (map snd queue) \<and>
      (\<forall>(v, d) \<in> set queue. d \<le> snd (hd queue) + 1) \<and>
      (\<forall>v. sl v \<noteq> None \<and> v \<notin> fst ` set queue \<longrightarrow> set (adjacent g v) \<subseteq> dom sl))"

section \<open>Average shortest path length\<close>

text \<open>
  Lines 74 to 76 and 93 to 95, the body both averages share: a vertex \<open>v2\<close> that
  is a key of \<open>sp\<close> updates the running mean and the count; any other vertex is
  skipped. The state is the pair \<open>(avg, count)\<close>.
\<close>

definition accumulate :: "lengths \<Rightarrow> int \<Rightarrow> rat \<times> int \<Rightarrow> error + rat \<times> int" where
  "accumulate sp v2 s =
     (case s of (avg, count) \<Rightarrow>
        (case sp v2 of
           None \<Rightarrow> Inr (avg, count)
         | Some d \<Rightarrow>
             (case truediv (avg * of_int count + of_int d) (of_int (count + 1)) of
                Inl e \<Rightarrow> Inl e
              | Inr avg' \<Rightarrow> Inr (avg', count + 1))))"

text \<open>Lines 66 to 77: every source \<open>v1\<close>, against the vertices \<open>v2 < v1\<close>.\<close>

definition shortest_path_len :: "graph \<Rightarrow> error + rat" where
  "shortest_path_len g =
     (case for_loop (\<lambda>v1 s.
             case shortest_path g v1 of
               Inl e \<Rightarrow> Inl e
             | Inr sp \<Rightarrow> for_loop (accumulate sp) (py_range v1) s)
           (py_range (num_vertices g)) (0, 0) of
        Inl e \<Rightarrow> Inl e
      | Inr (avg, count) \<Rightarrow> Inr avg)"

text \<open>
  The random source is an input of the model: \<open>draws\<close> lists the values that
  successive calls of \<^verbatim>\<open>rand.randint\<close> return. A call on an empty range raises
  ValueError, as Python's does; a call when the list is used up has no result
  (\<open>None\<close>): the list was too short to describe the run.
\<close>

definition randint :: "int \<Rightarrow> int \<Rightarrow> int list \<Rightarrow> (error + int \<times> int list) option" where
  "randint a b draws =
     (if b < a then Some (Inl ValueError)
      else case draws of [] \<Rightarrow> None | k # rest \<Rightarrow> Some (Inr (k, rest)))"

text \<open>A \<^verbatim>\<open>for\<close> loop whose body may raise and may read the random source.\<close>

fun for_loop_rand ::
  "('a \<Rightarrow> 's \<Rightarrow> (error + 's) option) \<Rightarrow> 'a list \<Rightarrow> 's \<Rightarrow> (error + 's) option" where
  "for_loop_rand body [] s = Some (Inr s)"
| "for_loop_rand body (x # xs) s =
     (case body x s of
        None \<Rightarrow> None
      | Some (Inl e) \<Rightarrow> Some (Inl e)
      | Some (Inr s') \<Rightarrow> for_loop_rand body xs s')"

text \<open>
  Lines 89 to 95, the body of \<^verbatim>\<open>for i in range(20)\<close>: draw a source, explore
  from it, and run \<open>v2\<close> over \<^verbatim>\<open>range(self.num_vertices)\<close>, the source included.
\<close>

definition sample_source :: "graph \<Rightarrow> (rat \<times> int) \<times> int list \<Rightarrow> (error + (rat \<times> int) \<times> int list) option" where
  "sample_source g s =
     (case s of (acc, draws) \<Rightarrow>
        (case randint 0 (num_vertices g - 1) draws of
           None \<Rightarrow> None
         | Some (Inl e) \<Rightarrow> Some (Inl e)
         | Some (Inr (v1, draws')) \<Rightarrow>
             (case shortest_path g v1 of
                Inl e \<Rightarrow> Some (Inl e)
              | Inr sp \<Rightarrow>
                  (case for_loop (accumulate sp) (py_range (num_vertices g)) acc of
                     Inl e \<Rightarrow> Some (Inl e)
                   | Inr acc' \<Rightarrow> Some (Inr (acc', draws'))))))"

text \<open>Lines 85 to 96.\<close>

definition shortest_path_len_random :: "graph \<Rightarrow> int list \<Rightarrow> (error + rat) option" where
  "shortest_path_len_random g draws =
     (case for_loop_rand (\<lambda>i. sample_source g) (py_range 20) ((0, 0), draws) of
        None \<Rightarrow> None
      | Some (Inl e) \<Rightarrow> Some (Inl e)
      | Some (Inr ((avg, count), draws')) \<Rightarrow> Some (Inr avg))"

section \<open>The rewiring generator\<close>

text \<open>
  The random source is again an input: \<open>uniforms\<close> lists the values successive
  calls of \<^verbatim>\<open>rand.random()\<close> return (Python draws them from the interval from 0
  to 1, 1 excluded), \<open>draws\<close> the values successive calls of
  \<^verbatim>\<open>rand.randint\<close> return. A list that is used up gives \<open>None\<close>: the run
  needs more random values than the lists describe.
\<close>

definition rand_random :: "rat list \<Rightarrow> (rat \<times> rat list) option" where
  "rand_random uniforms = (case uniforms of [] \<Rightarrow> None | u # rest \<Rightarrow> Some (u, rest))"

text \<open>\<^verbatim>\<open>self.all_possible_edges[rand.randint(0, len(self.all_possible_edges) - 1)]\<close>\<close>

definition draw_edge :: "edge list \<Rightarrow> int list \<Rightarrow> (error + edge \<times> int list) option" where
  "draw_edge ape draws =
     (case randint 0 (len ape - 1) draws of
        None \<Rightarrow> None
      | Some (Inl e) \<Rightarrow> Some (Inl e)
      | Some (Inr (k, draws')) \<Rightarrow>
          (case getitem ape k of
             Inl e \<Rightarrow> Some (Inl e)
           | Inr new_edge \<Rightarrow> Some (Inr (new_edge, draws'))))"

lemma draw_edge_shortens:
  "draw_edge ape draws = Some (Inr (new_edge, draws')) \<Longrightarrow> length draws' < length draws"
  by (auto simp: draw_edge_def randint_def split: if_splits list.splits sum.splits)

text \<open>
  Lines 108 and 109, \<^verbatim>\<open>while new_edge in new_edges\<close>: every round reads one more
  draw, so the loop is defined by recursion on the draws that are left.
\<close>

function redraw ::
  "edge list \<Rightarrow> edge list \<Rightarrow> edge \<Rightarrow> int list \<Rightarrow> (error + edge \<times> int list) option" where
  "redraw ape new_edges new_edge draws =
     (if new_edge \<in> set new_edges
      then (case draw_edge ape draws of
              None \<Rightarrow> None
            | Some (Inl e) \<Rightarrow> Some (Inl e)
            | Some (Inr (new_edge', draws')) \<Rightarrow> redraw ape new_edges new_edge' draws')
      else Some (Inr (new_edge, draws)))"
  by pat_completeness auto
termination
  by (relation "measure (\<lambda>(ape, new_edges, new_edge, draws). length draws)")
    (auto dest: draw_edge_shortens)

declare redraw.simps [simp del]

text \<open>
  Lines 105 to 110, the body of \<^verbatim>\<open>for i in range(len(self.edges))\<close>. The state is
  \<open>new_edges\<close> and what is left of the random source.
\<close>

definition rewire ::
  "graph \<Rightarrow> rat \<Rightarrow> int \<Rightarrow> edge list \<times> rat list \<times> int list \<Rightarrow>
   (error + edge list \<times> rat list \<times> int list) option" where
  "rewire g p i s =
     (case s of (new_edges, uniforms, draws) \<Rightarrow>
        (case rand_random uniforms of
           None \<Rightarrow> None
         | Some (u, uniforms') \<Rightarrow>
             if u < p
             then (case draw_edge (all_possible_edges g) draws of
                     None \<Rightarrow> None
                   | Some (Inl e) \<Rightarrow> Some (Inl e)
                   | Some (Inr (first, draws')) \<Rightarrow>
                       (case redraw (all_possible_edges g) new_edges first draws' of
                          None \<Rightarrow> None
                        | Some (Inl e) \<Rightarrow> Some (Inl e)
                        | Some (Inr (new_edge, draws'')) \<Rightarrow>
                            (case setitem new_edges i new_edge of
                               Inl e \<Rightarrow> Some (Inl e)
                             | Inr new_edges' \<Rightarrow> Some (Inr (new_edges', uniforms', draws'')))))
             else Some (Inr (new_edges, uniforms', draws))))"

text \<open>
  Lines 102 to 111. \<^verbatim>\<open>list(self.edges)\<close> is a copy, which for values is the list
  itself; the store model further down keeps the two lists apart.
\<close>

definition randomize_graph :: "graph \<Rightarrow> rat \<Rightarrow> rat list \<Rightarrow> int list \<Rightarrow> (error + graph) option" where
  "randomize_graph g p uniforms draws =
     (case for_loop_rand (rewire g p) (py_range (len (edges g))) (edges g, uniforms, draws) of
        None \<Rightarrow> None
      | Some (Inl e) \<Rightarrow> Some (Inl e)
      | Some (Inr (new_edges, uniforms', draws')) \<Rightarrow> Some (Graph (num_vertices g) new_edges))"

text \<open>
  An edge as an unordered pair, in its canonical ascending form; and the edge lists in
  which every pair is written ascending, as the docstring of the class requires.
\<close>

definition unordered :: "edge \<Rightarrow> edge" where
  "unordered e = (min (fst e) (snd e), max (fst e) (snd e))"

definition ascending :: "edge list \<Rightarrow> bool" where
  "ascending es = (\<forall>e \<in> set es. fst e < snd e)"

definition kite_rewired :: graph where
  "kite_rewired = \<lparr>num_vertices = 4, edges = [(0, 1), (2, 3), (0, 3), (0, 2), (1, 3)],
     neighbors = [[1, 3, 2], [0, 3], [3, 0], [2, 0, 1]],
     all_possible_edges = [(0, 1), (0, 2), (1, 2), (0, 3), (1, 3), (2, 3)]\<rparr>"

definition kite_replaced :: graph where
  "kite_replaced = \<lparr>num_vertices = 4, edges = [(2, 3), (0, 1), (0, 2), (0, 3), (1, 2)],
     neighbors = [[1, 2, 3], [0, 2], [3, 0, 1], [2, 0]],
     all_possible_edges = [(0, 1), (0, 2), (1, 2), (0, 3), (1, 3), (2, 3)]\<rparr>"

section \<open>The rewiring generator on an explicit store\<close>

text \<open>
  Whether a call changes the graph it is called on depends on which list objects are
  shared, so this section runs the constructor and \<^verbatim>\<open>randomize_graph\<close> on an
  explicit store. An address is a position in the store; allocation appends; a Graph
  object holds its vertex count and the addresses of its three lists; \<open>neighbors\<close>
  is a list of addresses of adjacency lists. Integers and tuples are immutable and are
  stored as values. Reading an address that holds no object of the expected kind gives
  TypeError; a store the program built never does.
\<close>

record graph_obj =
  num_vertices_attr :: int
  edges_attr :: nat
  neighbors_attr :: nat
  all_possible_edges_attr :: nat

datatype obj = EdgeList "edge list" | IntList "int list" | RefList "nat list" | GraphObj graph_obj

type_synonym store = "obj list"

definition alloc :: "store \<Rightarrow> obj \<Rightarrow> nat \<times> store" where
  "alloc h ob = (length h, h @ [ob])"

definition alloc_each :: "store \<Rightarrow> obj list \<Rightarrow> nat list \<times> store" where
  "alloc_each h obs = ([length h..<length h + length obs], h @ obs)"

definition edge_list_at :: "store \<Rightarrow> nat \<Rightarrow> error + edge list" where
  "edge_list_at h a =
     (if a < length h then (case h ! a of EdgeList es \<Rightarrow> Inr es | _ \<Rightarrow> Inl TypeError)
      else Inl TypeError)"

definition int_list_at :: "store \<Rightarrow> nat \<Rightarrow> error + int list" where
  "int_list_at h a =
     (if a < length h then (case h ! a of IntList xs \<Rightarrow> Inr xs | _ \<Rightarrow> Inl TypeError)
      else Inl TypeError)"

definition ref_list_at :: "store \<Rightarrow> nat \<Rightarrow> error + nat list" where
  "ref_list_at h a =
     (if a < length h then (case h ! a of RefList rs \<Rightarrow> Inr rs | _ \<Rightarrow> Inl TypeError)
      else Inl TypeError)"

definition graph_obj_at :: "store \<Rightarrow> nat \<Rightarrow> error + graph_obj" where
  "graph_obj_at h a =
     (if a < length h then (case h ! a of GraphObj go \<Rightarrow> Inr go | _ \<Rightarrow> Inl TypeError)
      else Inl TypeError)"

fun int_lists_at :: "store \<Rightarrow> nat list \<Rightarrow> error + int list list" where
  "int_lists_at h [] = Inr []"
| "int_lists_at h (a # as) =
     (case int_list_at h a of
        Inl e \<Rightarrow> Inl e
      | Inr xs \<Rightarrow> (case int_lists_at h as of Inl e \<Rightarrow> Inl e | Inr xss \<Rightarrow> Inr (xs # xss)))"

text \<open>The graph value an address denotes: the object and the lists its attributes lead to.\<close>

definition graph_at :: "store \<Rightarrow> nat \<Rightarrow> error + graph" where
  "graph_at h a =
     (case graph_obj_at h a of Inl e \<Rightarrow> Inl e | Inr go \<Rightarrow>
      case edge_list_at h (edges_attr go) of Inl e \<Rightarrow> Inl e | Inr es \<Rightarrow>
      case ref_list_at h (neighbors_attr go) of Inl e \<Rightarrow> Inl e | Inr rs \<Rightarrow>
      case int_lists_at h rs of Inl e \<Rightarrow> Inl e | Inr nbrs \<Rightarrow>
      case edge_list_at h (all_possible_edges_attr go) of Inl e \<Rightarrow> Inl e | Inr ape \<Rightarrow>
        Inr \<lparr>num_vertices = num_vertices_attr go, edges = es, neighbors = nbrs,
             all_possible_edges = ape\<rparr>)"

text \<open>
  \<^verbatim>\<open>self.neighbors[i].append(x)\<close> on the store: the adjacency list at the address
  found in the list at \<open>nref\<close> is updated in place.
\<close>

definition append_at_st :: "nat \<Rightarrow> int \<Rightarrow> int \<Rightarrow> store \<Rightarrow> error + store" where
  "append_at_st nref i x h =
     (case ref_list_at h nref of Inl e \<Rightarrow> Inl e | Inr rs \<Rightarrow>
      case getitem rs i of Inl e \<Rightarrow> Inl e | Inr a \<Rightarrow>
      case int_list_at h a of Inl e \<Rightarrow> Inl e | Inr xs \<Rightarrow>
        Inr (h[a := IntList (xs @ [x])]))"

definition add_edge_st :: "nat \<Rightarrow> edge \<Rightarrow> store \<Rightarrow> error + store" where
  "add_edge_st nref e h =
     (case append_at_st nref (fst e) (snd e) h of
        Inl err \<Rightarrow> Inl err
      | Inr h' \<Rightarrow> append_at_st nref (snd e) (fst e) h')"

definition append_edge_st :: "nat \<Rightarrow> edge \<Rightarrow> store \<Rightarrow> error + store" where
  "append_edge_st aref e h =
     (case edge_list_at h aref of Inl err \<Rightarrow> Inl err | Inr es \<Rightarrow>
        Inr (h[aref := EdgeList (es @ [e])]))"

text \<open>
  The constructor on the store. \<^verbatim>\<open>self.edges = edges\<close> keeps the address it is
  given: the new object shares that list. The comprehension allocates one empty list
  per vertex; \<open>all_possible_edges\<close> is allocated empty and appended to. The
  Graph object itself is allocated last, once its attributes are known.
\<close>

definition Graph_st :: "store \<Rightarrow> int \<Rightarrow> nat \<Rightarrow> error + nat \<times> store" where
  "Graph_st h n eref =
     (case alloc_each h (map (\<lambda>i. IntList []) (py_range n)) of (rs, h1) \<Rightarrow>
      case alloc h1 (RefList rs) of (nref, h2) \<Rightarrow>
      case edge_list_at h2 eref of Inl e \<Rightarrow> Inl e | Inr es \<Rightarrow>
      case for_loop (add_edge_st nref) es h2 of Inl e \<Rightarrow> Inl e | Inr h3 \<Rightarrow>
      case alloc h3 (EdgeList []) of (aref, h4) \<Rightarrow>
      case for_loop (\<lambda>a. for_loop (\<lambda>b. append_edge_st aref (b, a)) (py_range a))
             (py_range n) h4 of Inl e \<Rightarrow> Inl e | Inr h5 \<Rightarrow>
        Inr (alloc h5 (GraphObj \<lparr>num_vertices_attr = n, edges_attr = eref,
               neighbors_attr = nref, all_possible_edges_attr = aref\<rparr>)))"

text \<open>
  One round of the loop of \<^verbatim>\<open>randomize_graph\<close> on the store: \<open>self\<close> is read
  from the store, \<open>new_edges\<close> is the list at address \<open>r\<close>, and the assignment
  \<^verbatim>\<open>new_edges[i] = new_edge\<close> writes to that address.
\<close>

definition rewire_st ::
  "nat \<Rightarrow> nat \<Rightarrow> rat \<Rightarrow> int \<Rightarrow> store \<times> rat list \<times> int list \<Rightarrow>
   (error + store \<times> rat list \<times> int list) option" where
  "rewire_st self r p i s =
     (case s of (h, uniforms, draws) \<Rightarrow>
      case graph_at h self of Inl e \<Rightarrow> Some (Inl e) | Inr g \<Rightarrow>
      case edge_list_at h r of Inl e \<Rightarrow> Some (Inl e) | Inr new_edges \<Rightarrow>
      case rewire g p i (new_edges, uniforms, draws) of
        None \<Rightarrow> None
      | Some (Inl e) \<Rightarrow> Some (Inl e)
      | Some (Inr (new_edges', uniforms', draws')) \<Rightarrow>
          Some (Inr (h[r := EdgeList new_edges'], uniforms', draws')))"

text \<open>
  \<^verbatim>\<open>randomize_graph\<close> on the store: \<^verbatim>\<open>list(self.edges)\<close> allocates a copy, the
  loop writes to the copy, and the constructor is called with the address of the copy.
\<close>

definition randomize_graph_st ::
  "store \<Rightarrow> nat \<Rightarrow> rat \<Rightarrow> rat list \<Rightarrow> int list \<Rightarrow> (error + nat \<times> store) option" where
  "randomize_graph_st h self p uniforms draws =
     (case graph_obj_at h self of Inl e \<Rightarrow> Some (Inl e) | Inr go \<Rightarrow>
      case edge_list_at h (edges_attr go) of Inl e \<Rightarrow> Some (Inl e) | Inr es \<Rightarrow>
      case alloc h (EdgeList es) of (r, h1) \<Rightarrow>
      case for_loop_rand (rewire_st self r p) (py_range (len es)) (h1, uniforms, draws) of
        None \<Rightarrow> None
      | Some (Inl e) \<Rightarrow> Some (Inl e)
      | Some (Inr (h2, uniforms', draws')) \<Rightarrow>
          (case graph_obj_at h2 self of Inl e \<Rightarrow> Some (Inl e) | Inr go' \<Rightarrow>
             Some (Graph_st h2 (num_vertices_attr go') r)))"

text \<open>Every object of the store \<open>h\<close> is in \<open>h'\<close>, at its address, as it was.\<close>

definition unchanged :: "store \<Rightarrow> store \<Rightarrow> bool" where
  "unchanged h h' = (length h \<le> length h' \<and> take (length h) h' = h)"

definition lone_edge :: graph where
  "lone_edge = \<lparr>num_vertices = 3, edges = [(0, 1)], neighbors = [[1], [0], []],
     all_possible_edges = [(0, 1), (0, 2), (1, 2)]\<rparr>"

definition example_store :: store where
  "example_store =
     [EdgeList [(0, 1)], IntList [1], IntList [0], IntList [], RefList [1, 2, 3],
      EdgeList [(0, 1), (0, 2), (1, 2)],
      GraphObj \<lparr>num_vertices_attr = 3, edges_attr = 0, neighbors_attr = 4,
        all_possible_edges_attr = 5\<rparr>]"

definition example_store_after :: store where
  "example_store_after =
     example_store @
     [EdgeList [(1, 2)], IntList [], IntList [2], IntList [1], RefList [8, 9, 10],
      EdgeList [(0, 1), (0, 2), (1, 2)],
      GraphObj \<lparr>num_vertices_attr = 3, edges_attr = 7, neighbors_attr = 11,
        all_possible_edges_attr = 12\<rparr>]"

chapter \<open>Its properties\<close>

section \<open>The example graphs are what the constructors build\<close>

lemma make_graph_ring6: "make_graph 6 1 = Inr ring6"
  unfolding ring6_def by code_simp

lemma Graph_ring6: "Graph 6 [(0, 5), (1, 0), (2, 1), (3, 2), (4, 3), (5, 4)] = Inr ring6"
  unfolding ring6_def by code_simp

lemma Graph_triangle: "Graph 3 [(0, 1), (0, 2), (1, 2)] = Inr triangle"
  unfolding triangle_def by code_simp

lemma Graph_single_edge: "Graph 2 [(0, 1)] = Inr single_edge"
  unfolding single_edge_def by code_simp

lemma Graph_kite: "Graph 4 [(0, 1), (0, 2), (0, 3), (1, 2), (1, 3)] = Inr kite"
  unfolding kite_def by code_simp

lemma make_graph_ring3: "make_graph 3 1 = Inr ring3"
  unfolding ring3_def by code_simp

lemma Graph_ring3: "Graph 3 [(0, 2), (1, 0), (2, 1)] = Inr ring3"
  unfolding ring3_def by code_simp

section \<open>Ranges\<close>

lemma py_range_Suc: "py_range (int (Suc m)) = py_range (int m) @ [int m]"
  by (simp add: py_range_def upto_rec2)

lemma set_py_range: "set (py_range n) = {i. 0 \<le> i \<and> i < n}"
  by (auto simp: py_range_def)

lemma distinct_py_range: "distinct (py_range n)"
  by (simp add: py_range_def)

lemma length_py_range: "length (py_range n) = nat n"
  by (simp add: py_range_def)

section \<open>The catalogue of all possible edges\<close>

lemma set_build_all_possible_edges:
  "set (build_all_possible_edges n) = {(b, a). 0 \<le> b \<and> b < a \<and> a < n}"
proof -
  have "(b, a) \<in> set (build_all_possible_edges n) \<longleftrightarrow> 0 \<le> b \<and> b < a \<and> a < n" for a b
    by (auto simp: build_all_possible_edges_def set_py_range image_iff)
  then show ?thesis by auto
qed

lemma distinct_build_all_possible_edges: "distinct (build_all_possible_edges n)"
  unfolding build_all_possible_edges_def
proof (rule distinct_concat)
  show "distinct (map (\<lambda>a. map (\<lambda>b. (b, a)) (py_range a)) (py_range n))"
  proof (simp add: distinct_map distinct_py_range, rule inj_onI)
    fix x y
    assume "x \<in> set (py_range n)" "y \<in> set (py_range n)"
      and eq: "map (\<lambda>b. (b, x)) (py_range x) = map (\<lambda>b. (b, y)) (py_range y)"
    then have "0 \<le> x" "0 \<le> y" by (simp_all add: set_py_range)
    moreover have "nat x = nat y"
      using arg_cong [OF eq, of length] by (simp add: length_py_range)
    ultimately show "x = y" by simp
  qed
qed (auto simp: distinct_map distinct_py_range inj_on_def)

lemma length_build_nat:
  "2 * length (build_all_possible_edges (int m)) = m * (m - 1)"
proof (induction m)
  case 0
  show ?case by (simp add: build_all_possible_edges_def py_range_def)
next
  case (Suc m)
  have "build_all_possible_edges (int (Suc m)) =
        build_all_possible_edges (int m) @ map (\<lambda>b. (b, int m)) (py_range (int m))"
    by (simp only: build_all_possible_edges_def py_range_Suc map_append concat_append) simp
  then have "2 * length (build_all_possible_edges (int (Suc m))) = m * (m - 1) + 2 * m"
    using Suc.IH by (simp add: length_py_range)
  also have "\<dots> = Suc m * (Suc m - 1)"
    by (cases m) simp_all
  finally show ?case .
qed

lemma length_build_all_possible_edges:
  assumes "0 \<le> n"
  shows "int (length (build_all_possible_edges n)) = n * (n - 1) div 2"
proof -
  obtain m where n: "n = int m" using assms by (metis nonneg_int_cases)
  have "2 * int (length (build_all_possible_edges n)) = int (m * (m - 1))"
    using length_build_nat [of m] unfolding n by (metis of_nat_mult of_nat_numeral)
  also have "\<dots> = n * (n - 1)"
    unfolding n by (cases m) (simp_all add: algebra_simps)
  finally show ?thesis by simp
qed

lemma Graph_fields:
  "Graph n es = Inr g \<Longrightarrow>
   num_vertices g = n \<and> edges g = es \<and> all_possible_edges g = build_all_possible_edges n"
  by (auto simp: Graph_def split: sum.splits)

text \<open>
  C6. For a graph constructed with \<open>num_vertices > 0\<close>, \<open>all_possible_edges\<close> has
  length \<open>num_vertices * (num_vertices - 1) / 2\<close>, has no repeated entry, and its
  entries are exactly the pairs \<open>(b, a)\<close> with \<open>0 \<le> b < a < num_vertices\<close>.
\<close>

theorem all_possible_edges_catalogue:
  assumes "Graph n es = Inr g" and "0 < n"
  shows "len (all_possible_edges g) = n * (n - 1) div 2 \<and>
         distinct (all_possible_edges g) \<and>
         set (all_possible_edges g) = {(b, a). 0 \<le> b \<and> b < a \<and> a < n}"
  using assms Graph_fields [OF assms(1)]
  by (simp add: len_def length_build_all_possible_edges distinct_build_all_possible_edges
      set_build_all_possible_edges)

theorem all_possible_edges_catalogue_witness:
  "Graph 3 [(0, 1), (0, 2), (1, 2)] = Inr triangle \<and> (0::int) < 3 \<and>
   len (all_possible_edges triangle) = 3 * (3 - 1) div 2 \<and>
   distinct (all_possible_edges triangle) \<and>
   set (all_possible_edges triangle) = {(b, a). 0 \<le> b \<and> b < a \<and> a < 3}"
  using all_possible_edges_catalogue [OF Graph_triangle] Graph_triangle by simp

section \<open>The adjacency index\<close>

lemma py_index_in_range: "0 \<le> i \<Longrightarrow> i < int n \<Longrightarrow> py_index n i = Inr (nat i)"
  by (simp add: py_index_def)

lemma py_index_ok: "- int n \<le> i \<Longrightarrow> i < int n \<Longrightarrow> \<exists>k. py_index n i = Inr k \<and> k < n"
  by (auto simp: py_index_def)

lemma getitem_in_range: "0 \<le> i \<Longrightarrow> i < int (length xs) \<Longrightarrow> getitem xs i = Inr (xs ! nat i)"
  by (simp add: getitem_def py_index_in_range)

lemma append_at_in_range:
  "0 \<le> i \<Longrightarrow> i < int (length nbrs) \<Longrightarrow>
   append_at nbrs i x = Inr (nbrs[nat i := nbrs ! nat i @ [x]])"
  by (simp add: append_at_def py_index_in_range)

lemma add_edge_in_range:
  assumes "0 \<le> a" "a < int (length nbrs)" "0 \<le> b" "b < int (length nbrs)"
  shows "\<exists>nbrs'. add_edge (a, b) nbrs = Inr nbrs' \<and> length nbrs' = length nbrs \<and>
           (\<forall>k < length nbrs. set (nbrs' ! k) =
              set (nbrs ! k) \<union> (if int k = a then {b} else {}) \<union> (if int k = b then {a} else {}))"
  using assms
  by (auto simp: add_edge_def append_at_in_range nth_list_update)

lemma add_edges_in_range:
  "in_range (int (length nbrs)) es \<Longrightarrow>
   \<exists>nbrs'. for_loop add_edge es nbrs = Inr nbrs' \<and> length nbrs' = length nbrs \<and>
     (\<forall>k < length nbrs. set (nbrs' ! k) =
        set (nbrs ! k) \<union> {b. (int k, b) \<in> set es} \<union> {a. (a, int k) \<in> set es})"
proof (induction es arbitrary: nbrs)
  case Nil
  then show ?case by simp
next
  case (Cons e es)
  obtain a b where e: "e = (a, b)" by (cases e)
  from Cons.prems have ab: "0 \<le> a" "a < int (length nbrs)" "0 \<le> b" "b < int (length nbrs)"
    and rest: "in_range (int (length nbrs)) es"
    by (simp_all add: in_range_def e)
  from add_edge_in_range [OF ab] obtain n1 where
    n1: "add_edge (a, b) nbrs = Inr n1" "length n1 = length nbrs"
    and s1: "\<And>k. k < length nbrs \<Longrightarrow> set (n1 ! k) =
       set (nbrs ! k) \<union> (if int k = a then {b} else {}) \<union> (if int k = b then {a} else {})"
    by blast
  from Cons.IH [of n1] rest n1 obtain n2 where
    n2: "for_loop add_edge es n1 = Inr n2" "length n2 = length n1"
    and s2: "\<And>k. k < length n1 \<Longrightarrow> set (n2 ! k) =
       set (n1 ! k) \<union> {b. (int k, b) \<in> set es} \<union> {a. (a, int k) \<in> set es}"
    by auto
  have "for_loop add_edge (e # es) nbrs = Inr n2" by (simp add: e n1 n2)
  moreover have "length n2 = length nbrs" by (simp add: n1 n2)
  moreover have "set (n2 ! k) =
       set (nbrs ! k) \<union> {b. (int k, b) \<in> set (e # es)} \<union> {a. (a, int k) \<in> set (e # es)}"
    if "k < length nbrs" for k
    using s1 [OF that] s2 [of k] that n1 by (auto simp: e)
  ultimately show ?case by blast
qed

lemma Graph_in_range:
  assumes "in_range n es"
  shows "\<exists>g. Graph n es = Inr g \<and> num_vertices g = n \<and> edges g = es \<and>
           all_possible_edges g = build_all_possible_edges n \<and>
           length (neighbors g) = nat n \<and>
           (\<forall>k < nat n. set (neighbors g ! k) =
              {b. (int k, b) \<in> set es} \<union> {a. (a, int k) \<in> set es})"
proof (cases "0 \<le> n")
  case True
  let ?init = "map (\<lambda>i. []) (py_range n) :: int list list"
  have len: "length ?init = nat n" by (simp add: length_py_range)
  with assms True have "in_range (int (length ?init)) es" by simp
  from add_edges_in_range [OF this] obtain nb where
    nb: "for_loop add_edge es ?init = Inr nb" "length nb = length ?init"
    and s: "\<And>k. k < length ?init \<Longrightarrow> set (nb ! k) =
        set (?init ! k) \<union> {b. (int k, b) \<in> set es} \<union> {a. (a, int k) \<in> set es}"
    by blast
  have emp: "?init ! k = []" if "k < nat n" for k
    using that by (simp add: length_py_range)
  have "set (nb ! k) = {b. (int k, b) \<in> set es} \<union> {a. (a, int k) \<in> set es}"
    if "k < nat n" for k
    using s [of k] that emp [OF that] len by simp
  then show ?thesis
    using nb len by (simp add: Graph_def)
next
  case False
  with assms have "es = []" by (cases es) (auto simp: in_range_def)
  with False show ?thesis by (simp add: Graph_def py_range_def)
qed

text \<open>
  C7. A graph constructed from an edge sequence whose endpoints are in range has a
  symmetric adjacency index, and \<open>u\<close> is in \<open>neighbors[v]\<close> exactly when some edge of
  the sequence joins \<open>u\<close> and \<open>v\<close>, in either orientation.
\<close>

theorem neighbors_symmetric_closure:
  assumes "in_range n es" and "0 \<le> u" and "u < n" and "0 \<le> v" and "v < n"
  shows "\<exists>g nu nv. Graph n es = Inr g \<and>
           getitem (neighbors g) u = Inr nu \<and> getitem (neighbors g) v = Inr nv \<and>
           (u \<in> set nv \<longleftrightarrow> v \<in> set nu) \<and>
           (u \<in> set nv \<longleftrightarrow> (u, v) \<in> set es \<or> (v, u) \<in> set es)"
proof -
  from Graph_in_range [OF assms(1)] obtain g where
    g: "Graph n es = Inr g" "length (neighbors g) = nat n"
    and s: "\<And>k. k < nat n \<Longrightarrow> set (neighbors g ! k) =
        {b. (int k, b) \<in> set es} \<union> {a. (a, int k) \<in> set es}"
    by blast
  have gu: "getitem (neighbors g) u = Inr (neighbors g ! nat u)"
    using assms g by (simp add: getitem_in_range)
  have gv: "getitem (neighbors g) v = Inr (neighbors g ! nat v)"
    using assms g by (simp add: getitem_in_range)
  have su: "set (neighbors g ! nat u) = {b. (u, b) \<in> set es} \<union> {a. (a, u) \<in> set es}"
    using s [of "nat u"] assms by simp
  have sv: "set (neighbors g ! nat v) = {b. (v, b) \<in> set es} \<union> {a. (a, v) \<in> set es}"
    using s [of "nat v"] assms by simp
  show ?thesis
    using g(1) gu gv su sv by auto
qed

theorem neighbors_symmetric_closure_witness:
  "in_range 6 [(0, 5), (1, 0), (2, 1), (3, 2), (4, 3), (5, 4)] \<and>
   (\<exists>g nu nv. Graph 6 [(0, 5), (1, 0), (2, 1), (3, 2), (4, 3), (5, 4)] = Inr g \<and>
      getitem (neighbors g) 5 = Inr nu \<and> getitem (neighbors g) 0 = Inr nv \<and>
      (5 \<in> set nv \<longleftrightarrow> 0 \<in> set nu) \<and>
      (5 \<in> set nv \<longleftrightarrow>
         (5, 0) \<in> set [(0, 5), (1, 0), (2, 1), (3, 2), (4, 3), (5, 4)] \<or>
         (0, 5) \<in> set [(0, 5), (1, 0), (2, 1), (3, 2), (4, 3), (5, 4)]))"
proof -
  have r: "in_range 6 [(0, 5), (1, 0), (2, 1), (3, 2), (4, 3), (5, 4)]"
    by (simp add: in_range_def)
  show ?thesis
    using r neighbors_symmetric_closure [OF r, of 5 0] by simp
qed

section \<open>Edges emitted by the geographic graph factory\<close>

lemma set_py_range2: "set (py_range2 a b) = {j. a \<le> j \<and> j < b}"
  by (auto simp: py_range2_def)

lemma set_make_graph_edges:
  "set (make_graph_edges n separation) =
     {make_graph_edge n i j | i j. 0 \<le> i \<and> i < n \<and> i - separation \<le> j \<and> j < i}"
  by (auto simp: make_graph_edges_def set_py_range set_py_range2)

lemma in_range_make_graph_edges:
  assumes "separation < n"
  shows "in_range n (make_graph_edges n separation)"
  unfolding in_range_def set_make_graph_edges
  using assms by (auto simp: make_graph_edge_def)

lemma make_graph_edges_fields:
  "make_graph n separation = Inr g \<Longrightarrow> edges g = make_graph_edges n separation"
  by (simp add: make_graph_def Graph_fields)

text \<open>
  C3 (amended). With \<open>separation < num_vertices\<close>, every wrap-around edge of
  \<^verbatim>\<open>make_graph\<close> (preceding index \<open>j\<close> negative) is emitted as
  \<open>(i, j + num_vertices)\<close>, it is in ascending order, and it is an edge of the
  graph returned.
\<close>

theorem make_graph_wrap_around_ascending:
  assumes "i \<in> set (py_range n)" and "j \<in> set (py_range2 (i - separation) i)"
    and "j < 0" and "separation < n"
  shows "make_graph_edge n i j = (i, j + n) \<and> i < j + n \<and>
         (\<exists>g. make_graph n separation = Inr g \<and> (i, j + n) \<in> set (edges g))"
proof -
  have e: "make_graph_edge n i j = (i, j + n)"
    using assms(3) by (simp add: make_graph_edge_def)
  have lt: "i < j + n"
    using assms by (simp add: set_py_range2)
  from Graph_in_range [OF in_range_make_graph_edges [OF assms(4)]]
  obtain g where g: "make_graph n separation = Inr g" "edges g = make_graph_edges n separation"
    unfolding make_graph_def by blast
  have "\<exists>i' j'. (i, j + n) = make_graph_edge n i' j' \<and>
           0 \<le> i' \<and> i' < n \<and> i' - separation \<le> j' \<and> j' < i'"
    using assms e
    by (intro exI [of _ i] exI [of _ j]) (simp add: set_py_range set_py_range2)
  then have "(i, j + n) \<in> set (make_graph_edges n separation)"
    unfolding set_make_graph_edges by simp
  with e lt g show ?thesis by auto
qed

theorem make_graph_wrap_around_ascending_witness:
  "(0::int) \<in> set (py_range 3) \<and> (- 1::int) \<in> set (py_range2 (0 - 1) 0) \<and>
   (- 1::int) < 0 \<and> (1::int) < 3 \<and>
   make_graph_edge 3 0 (- 1) = (0, - 1 + 3) \<and> (0::int) < - 1 + 3 \<and>
   (\<exists>g. make_graph 3 1 = Inr g \<and> (0, - 1 + 3) \<in> set (edges g))"
proof -
  have a: "(0::int) \<in> set (py_range 3)" by (simp add: set_py_range)
  have b: "(- 1::int) \<in> set (py_range2 (0 - 1) 0)" by (simp add: set_py_range2)
  show ?thesis
    using a b make_graph_wrap_around_ascending [OF a b] by simp
qed

text \<open>
  C3 as stated fails on \<^verbatim>\<open>make_graph(3, 1)\<close>: the wrap-around edge \<open>(0, 2)\<close>
  is ascending, and the edge \<open>(1, 0)\<close>, emitted without wrapping, is not.
\<close>

theorem make_graph_order_counterexample:
  "make_graph 3 1 = Inr ring3 \<and> edges ring3 = [(0, 2), (1, 0), (2, 1)] \<and>
   make_graph_edge 3 0 (- 1) = (0, 2) \<and>
   fst (make_graph_edge 3 0 (- 1)) < snd (make_graph_edge 3 0 (- 1)) \<and>
   make_graph_edge 3 1 0 = (1, 0) \<and>
   \<not> fst (make_graph_edge 3 1 0) < snd (make_graph_edge 3 1 0)"
  by (simp add: make_graph_ring3 make_graph_edge_def) (simp add: ring3_def)

section \<open>The clustering coefficient follows the recurrence\<close>

lemma Graph_wf:
  assumes "in_range n es" and "Graph n es = Inr g"
  shows "wf_graph g"
proof -
  from Graph_in_range [OF assms(1)] assms(2) have
    n: "num_vertices g = n" and l: "length (neighbors g) = nat n"
    and s: "\<And>k. k < nat n \<Longrightarrow> set (neighbors g ! k) =
        {b. (int k, b) \<in> set es} \<union> {a. (a, int k) \<in> set es}"
    by auto
  have "0 \<le> x \<and> x < n" if "xs \<in> set (neighbors g)" "x \<in> set xs" for xs x
  proof -
    from that(1) l obtain k where "k < nat n" "xs = neighbors g ! k"
      by (auto simp: in_set_conv_nth)
    with s [of k] that(2) assms(1) show ?thesis
      by (auto simp: in_range_def)
  qed
  moreover have "int u \<in> set (neighbors g ! v) \<longleftrightarrow> int v \<in> set (neighbors g ! u)"
    if "u < nat n" "v < nat n" for u v
    using s [OF that(1)] s [OF that(2)] by auto
  ultimately show ?thesis
    unfolding wf_graph_def n using l by blast
qed

lemma for_loop_total:
  "(\<And>x s. x \<in> set xs \<Longrightarrow> body (h x) s = Inr (f x s)) \<Longrightarrow>
   for_loop body (map h xs) s = Inr (fold f xs s)"
  by (induction xs arbitrary: s) simp_all

lemma for_loop_invariant:
  "for_loop body xs s = Inr s' \<Longrightarrow> P s \<Longrightarrow>
   (\<And>x t t'. x \<in> set xs \<Longrightarrow> P t \<Longrightarrow> body x t = Inr t' \<Longrightarrow> P t') \<Longrightarrow> P s'"
proof (induction xs arbitrary: s)
  case Nil
  then show ?case by simp
next
  case (Cons x xs)
  from Cons.prems(1) obtain t where t: "body x s = Inr t" "for_loop body xs t = Inr s'"
    by (auto split: sum.splits)
  have "P t" using Cons.prems(3) [of x s t] Cons.prems(2) t(1) by simp
  show ?case
    by (rule Cons.IH [OF t(2) \<open>P t\<close>]) (rule Cons.prems(3), simp_all)
qed

lemma for_loop_succeeds:
  "(\<And>x s. x \<in> set xs \<Longrightarrow> \<exists>s'. body x s = Inr s') \<Longrightarrow> \<exists>s'. for_loop body xs s = Inr s'"
proof (induction xs arbitrary: s)
  case Nil
  then show ?case by simp
next
  case (Cons x xs)
  from Cons.prems [of x s] obtain t where "body x s = Inr t" by auto
  moreover from Cons.IH [of t] Cons.prems obtain s' where "for_loop body xs t = Inr s'"
    by auto
  ultimately show ?case by simp
qed

lemma py_range_int: "py_range (int m) = map int [0..<m]"
proof (induction m)
  case 0
  show ?case by (simp add: py_range_def)
next
  case (Suc m)
  then show ?case by (simp only: py_range_Suc upt_Suc_append [OF le0] map_append) simp
qed

lemma getitem_nth: "k < length xs \<Longrightarrow> getitem xs (int k) = Inr (xs ! k)"
  by (simp add: getitem_in_range)

lemma py_range_nat: "py_range n = map int [0..<nat n]"
proof (cases "0 \<le> n")
  case True
  then show ?thesis using py_range_int [of "nat n"] by simp
next
  case False
  then show ?thesis by (simp add: py_range_def)
qed

lemma fold_concat_map: "fold f (concat (map g xs)) s = fold (\<lambda>x. fold f (g x)) xs s"
  by (induction xs arbitrary: s) simp_all

lemma truediv_succ: "0 \<le> i \<Longrightarrow> truediv a (of_int i + 1) = Inr (a / (of_int i + 1))"
proof -
  assume "0 \<le> i"
  then have "(0::rat) < of_int i + 1" by (simp add: add_nonneg_pos)
  then show ?thesis by (simp add: truediv_def)
qed

lemma append_at_valid:
  assumes "append_at nbrs i x = Inr nbrs'" and "valid_entries nbrs"
    and "- int (length nbrs) \<le> x \<and> x < int (length nbrs)"
  shows "valid_entries nbrs' \<and> length nbrs' = length nbrs \<and>
         - int (length nbrs) \<le> i \<and> i < int (length nbrs)"
proof -
  from assms(1) obtain k where k: "py_index (length nbrs) i = Inr k"
    and n': "nbrs' = nbrs[k := nbrs ! k @ [x]]"
    by (auto simp: append_at_def split: sum.splits)
  from py_index_Inr [OF k] have kl: "k < length nbrs"
    and i: "- int (length nbrs) \<le> i" "i < int (length nbrs)" by simp_all
  have "- int (length nbrs) \<le> y \<and> y < int (length nbrs)"
    if "xs \<in> set nbrs'" "y \<in> set xs" for xs y
  proof -
    from that(1) have "xs = nbrs ! k @ [x] \<or> xs \<in> set nbrs"
      unfolding n' using set_update_subset_insert [of nbrs k "nbrs ! k @ [x]"] by auto
    moreover have "nbrs ! k \<in> set nbrs" using kl by simp
    ultimately show ?thesis
      using that(2) assms(2,3) unfolding valid_entries_def by auto
  qed
  then show ?thesis
    using i by (simp add: valid_entries_def n')
qed

lemma append_at_index:
  "append_at nbrs i x = Inr nbrs' \<Longrightarrow> - int (length nbrs) \<le> i \<and> i < int (length nbrs) \<and>
     length nbrs' = length nbrs"
  by (auto simp: append_at_def split: sum.splits dest: py_index_Inr)

lemma add_edge_valid:
  assumes "add_edge e nbrs = Inr nbrs'" and "valid_entries nbrs"
  shows "valid_entries nbrs' \<and> length nbrs' = length nbrs"
proof -
  from assms(1) obtain n1 where
    n1: "append_at nbrs (fst e) (snd e) = Inr n1" and n2: "append_at n1 (snd e) (fst e) = Inr nbrs'"
    by (auto simp: add_edge_def split: sum.splits)
  from append_at_index [OF n1] have a: "- int (length nbrs) \<le> fst e \<and> fst e < int (length nbrs)"
    and l1: "length n1 = length nbrs" by simp_all
  from append_at_index [OF n2] l1 have b: "- int (length nbrs) \<le> snd e \<and> snd e < int (length nbrs)"
    by simp
  from append_at_valid [OF n1 assms(2) b] have v1: "valid_entries n1" by simp
  from append_at_valid [OF n2 v1] a l1 show ?thesis by simp
qed

lemma Graph_valid_entries:
  assumes "Graph n es = Inr g"
  shows "valid_entries (neighbors g) \<and> length (neighbors g) = nat (num_vertices g)"
proof -
  let ?init = "map (\<lambda>i. []) (py_range n) :: int list list"
  from assms have l: "for_loop add_edge es ?init = Inr (neighbors g)" and n: "num_vertices g = n"
    by (auto simp: Graph_def split: sum.splits)
  have "valid_entries (neighbors g) \<and> length (neighbors g) = nat n"
  proof (rule for_loop_invariant [OF l])
    show "valid_entries ?init \<and> length ?init = nat n"
      by (simp add: valid_entries_def length_py_range)
  next
    fix e t t'
    assume "valid_entries t \<and> length t = nat n" "add_edge e t = Inr t'"
    then show "valid_entries t' \<and> length t' = nat n"
      using add_edge_valid [of e t t'] by simp
  qed
  with n show ?thesis by simp
qed

lemma cc_update_valid:
  assumes v: "valid_entries (neighbors g)" and l: "length (neighbors g) = nat (num_vertices g)"
    and i: "i < nat (num_vertices g)"
    and j: "j < length (neighbors g ! i)" and k: "k < j"
  shows "cc_update g (int i) (int j) (int k) avg = Inr (triad_step g i (k, j) avg)"
proof -
  let ?ni = "neighbors g ! i"
  from l i have li: "i < length (neighbors g)"
    by simp
  have gi: "getitem (neighbors g) (int i) = Inr ?ni"
    using li by (rule getitem_nth)
  have gk: "getitem ?ni (int k) = Inr (?ni ! k)"
    using j k by (simp add: getitem_nth)
  have gj: "getitem ?ni (int j) = Inr (?ni ! j)"
    using j by (rule getitem_nth)
  have "?ni \<in> set (neighbors g)" using li by simp
  moreover have "?ni ! j \<in> set ?ni" using j by simp
  ultimately have "- int (length (neighbors g)) \<le> ?ni ! j \<and> ?ni ! j < int (length (neighbors g))"
    using v unfolding valid_entries_def by blast
  then obtain q where "py_index (length (neighbors g)) (?ni ! j) = Inr q"
    using py_index_ok by blast
  then obtain ny where gy: "getitem (neighbors g) (?ni ! j) = Inr ny"
    by (simp add: getitem_def)
  show ?thesis
    using truediv_succ [of "int i"]
    by (simp add: cc_update_def gi gk gj gy triad_step_def closed_triad_def)
qed

text \<open>
  C2. On every constructed graph, \<^verbatim>\<open>clustering_coefficient()\<close> returns the value
  of the recurrence over the outer vertex index \<open>i\<close> and the pairs of positions
  \<open>k < j\<close> of \<open>neighbors[i]\<close>; the weight is the vertex index \<open>i\<close>, not a
  count of observations.
\<close>

theorem clustering_coefficient_recurrence:
  assumes "Graph n es = Inr g"
  shows "clustering_coefficient g = Inr (triad_recurrence g)"
proof -
  from Graph_valid_entries [OF assms] have v: "valid_entries (neighbors g)"
    and l: "length (neighbors g) = nat (num_vertices g)" by simp_all
  have inner: "for_loop (cc_update g (int i) (int j)) (py_range (int j)) avg =
      Inr (fold (triad_step g i) (map (\<lambda>k. (k, j)) [0..<j]) avg)"
    if "i < nat (num_vertices g)" "j < length (neighbors g ! i)" for i j avg
    unfolding py_range_int fold_map
    by (rule for_loop_total) (simp add: cc_update_valid [OF v l that])
  have middle: "for_loop (\<lambda>j. for_loop (cc_update g (int i) j) (py_range j))
        (py_range (len (neighbors g ! i))) avg =
      Inr (fold (triad_step g i) (position_pairs (length (neighbors g ! i))) avg)"
    if "i < nat (num_vertices g)" for i avg
    unfolding len_def py_range_int position_pairs_def fold_concat_map
    by (rule for_loop_total) (simp add: inner [OF that])
  have gi: "getitem (neighbors g) (int i) = Inr (neighbors g ! i)"
    if "i < nat (num_vertices g)" for i
    using that l by (simp add: getitem_nth)
  show ?thesis
    unfolding clustering_coefficient_def triad_recurrence_def
      py_range_nat [of "num_vertices g"]
    by (rule for_loop_total) (simp add: gi middle)
qed

lemma triad_recurrence_kite: "triad_recurrence kite = 11 / 16"
  by code_simp

theorem clustering_coefficient_recurrence_witness:
  "Graph 4 [(0, 1), (0, 2), (0, 3), (1, 2), (1, 3)] = Inr kite \<and>
   clustering_coefficient kite = Inr (triad_recurrence kite) \<and>
   clustering_coefficient kite = Inr (11 / 16)"
  using clustering_coefficient_recurrence [OF Graph_kite] Graph_kite triad_recurrence_kite
  by simp

section \<open>The clustering coefficient is a value between 0 and 1\<close>

lemma truediv_bounds_closed:
  assumes "truediv (of_int i * a + 1) (of_int (i + 1)) = Inr a'" and "0 \<le> i" and "0 \<le> a" and "a \<le> 1"
  shows "0 \<le> a' \<and> a' \<le> 1"
proof -
  have p: "(0::rat) < of_int i + 1" using assms(2) by (simp add: add_nonneg_pos)
  have a': "a' = (of_int i * a + 1) / (of_int i + 1)"
    using assms(1,2) by (simp add: truediv_succ)
  have "of_int i * a \<le> (of_int i :: rat)"
    using assms(2,4) by (simp add: mult_left_le)
  then show ?thesis
    unfolding a' using p assms(2,3) by (simp add: divide_le_eq add_nonneg_nonneg)
qed

lemma truediv_bounds_open:
  assumes "truediv (a * of_int i) (of_int (i + 1)) = Inr a'" and "0 \<le> i" and "0 \<le> a" and "a \<le> 1"
  shows "0 \<le> a' \<and> a' \<le> 1"
proof -
  have p: "(0::rat) < of_int i + 1" using assms(2) by (simp add: add_nonneg_pos)
  have a': "a' = a * of_int i / (of_int i + 1)"
    using assms(1,2) by (simp add: truediv_succ)
  have "a * of_int i \<le> (of_int i :: rat)"
    using mult_right_mono [of a 1 "of_int i"] assms(2,4) by simp
  then show ?thesis
    unfolding a' using p assms(2,3) by (simp add: divide_le_eq)
qed

lemma cc_update_bounds:
  assumes "cc_update g i j k a = Inr a'" and "0 \<le> i" and "0 \<le> a \<and> a \<le> 1"
  shows "0 \<le> a' \<and> a' \<le> 1"
  using assms truediv_bounds_closed [of i a a'] truediv_bounds_open [of a i a']
  by (auto simp: cc_update_def split: sum.splits if_splits)

lemma clustering_coefficient_bounds:
  assumes "clustering_coefficient g = Inr c"
  shows "0 \<le> c \<and> c \<le> 1"
proof (rule for_loop_invariant [where P = "\<lambda>a. 0 \<le> a \<and> a \<le> 1",
      OF assms [unfolded clustering_coefficient_def]])
  show "(0::rat) \<le> 0 \<and> (0::rat) \<le> 1" by simp
next
  fix i t t'
  assume i: "i \<in> set (py_range (num_vertices g))" and t: "0 \<le> t \<and> t \<le> 1"
    and step: "(case getitem (neighbors g) i of Inl e \<Rightarrow> Inl e
        | Inr ni \<Rightarrow> for_loop (\<lambda>j. for_loop (cc_update g i j) (py_range j))
            (py_range (len ni)) t) = Inr t'"
  from i have i0: "0 \<le> i" by (simp add: set_py_range)
  from step obtain ni :: "int list" where
    mid: "for_loop (\<lambda>j. for_loop (cc_update g i j) (py_range j)) (py_range (len ni)) t = Inr t'"
    by (cases "getitem (neighbors g) i") auto
  show "0 \<le> t' \<and> t' \<le> 1"
  proof (rule for_loop_invariant [where P = "\<lambda>a. 0 \<le> a \<and> a \<le> 1", OF mid t])
    fix j u u'
    assume u: "0 \<le> u \<and> u \<le> 1" and inner: "for_loop (cc_update g i j) (py_range j) u = Inr u'"
    show "0 \<le> u' \<and> u' \<le> 1"
      by (rule for_loop_invariant [where P = "\<lambda>a. 0 \<le> a \<and> a \<le> 1", OF inner u])
        (rule cc_update_bounds [OF _ i0])
  qed
qed

lemma cc_update_succeeds:
  assumes v: "valid_entries (neighbors g)"
    and gi: "getitem (neighbors g) i = Inr ni" and i: "0 \<le> i"
    and j: "0 \<le> j" "j < len ni" and k: "0 \<le> k" "k < j"
  shows "\<exists>a'. cc_update g i j k a = Inr a'"
proof -
  have gk: "getitem ni k = Inr (ni ! nat k)" using j k by (simp add: getitem_in_range len_def)
  have gj: "getitem ni j = Inr (ni ! nat j)" using j by (simp add: getitem_in_range len_def)
  have "ni \<in> set (neighbors g)" using gi by (rule getitem_Inr)
  moreover have "ni ! nat j \<in> set ni" using j by (simp add: len_def)
  ultimately have "- int (length (neighbors g)) \<le> ni ! nat j \<and> ni ! nat j < int (length (neighbors g))"
    using v unfolding valid_entries_def by blast
  then obtain p where "py_index (length (neighbors g)) (ni ! nat j) = Inr p"
    using py_index_ok by blast
  then have "\<exists>ny. getitem (neighbors g) (ni ! nat j) = Inr ny"
    by (simp add: getitem_def)
  then show ?thesis
    using i by (auto simp: cc_update_def gi gk gj truediv_succ)
qed

lemma clustering_coefficient_succeeds:
  assumes "Graph n es = Inr g"
  shows "\<exists>c. clustering_coefficient g = Inr c"
  unfolding clustering_coefficient_def
proof (rule for_loop_succeeds)
  fix i s
  assume "i \<in> set (py_range (num_vertices g))"
  then have i: "0 \<le> i" "i < num_vertices g" by (simp_all add: set_py_range)
  from Graph_valid_entries [OF assms] have v: "valid_entries (neighbors g)"
    and l: "length (neighbors g) = nat (num_vertices g)" by simp_all
  have gi: "getitem (neighbors g) i = Inr (neighbors g ! nat i)"
    using i l by (simp add: getitem_in_range)
  have "\<exists>s'. for_loop (\<lambda>j. for_loop (cc_update g i j) (py_range j))
            (py_range (len (neighbors g ! nat i))) s = Inr s'"
  proof (rule for_loop_succeeds)
    fix j t
    assume "j \<in> set (py_range (len (neighbors g ! nat i)))"
    then have j: "0 \<le> j" "j < len (neighbors g ! nat i)" by (simp_all add: set_py_range)
    show "\<exists>s'. for_loop (cc_update g i j) (py_range j) t = Inr s'"
    proof (rule for_loop_succeeds)
      fix k u
      assume "k \<in> set (py_range j)"
      then have "0 \<le> k" "k < j" by (simp_all add: set_py_range)
      then show "\<exists>s'. cc_update g i j k u = Inr s'"
        using cc_update_succeeds [OF v gi i(1) j] by simp
    qed
  qed
  then show "\<exists>s'. (case getitem (neighbors g) i of Inl e \<Rightarrow> Inl e
        | Inr ni \<Rightarrow> for_loop (\<lambda>j. for_loop (cc_update g i j) (py_range j))
            (py_range (len ni)) s) = Inr s'"
    by (simp add: gi)
qed

text \<open>
  C10. On every constructed graph \<^verbatim>\<open>clustering_coefficient()\<close> returns a value,
  and the value lies in the closed interval from 0 to 1.
\<close>

theorem clustering_coefficient_unit_interval:
  assumes "Graph n es = Inr g"
  shows "\<exists>c. clustering_coefficient g = Inr c \<and> 0 \<le> c \<and> c \<le> 1"
  using clustering_coefficient_succeeds [OF assms] clustering_coefficient_bounds by blast

theorem clustering_coefficient_unit_interval_witness:
  "Graph 4 [(0, 1), (0, 2), (0, 3), (1, 2), (1, 3)] = Inr kite \<and>
   (\<exists>c. clustering_coefficient kite = Inr c \<and> 0 \<le> c \<and> c \<le> 1)"
  using clustering_coefficient_unit_interval [OF Graph_kite] Graph_kite by simp

section \<open>Breadth-first search computes distances\<close>

lemma adjacent_in_range:
  assumes "wf_graph g" and "w \<in> set (adjacent g u)"
  shows "0 \<le> u \<and> u < num_vertices g \<and> 0 \<le> w \<and> w < num_vertices g"
proof -
  from assms(2) have u: "0 \<le> u" "u < num_vertices g" and w: "w \<in> set (neighbors g ! nat u)"
    by (auto simp: adjacent_def split: if_splits)
  from assms(1) u have "neighbors g ! nat u \<in> set (neighbors g)"
    by (simp add: wf_graph_def)
  with assms(1) w u show ?thesis unfolding wf_graph_def by blast
qed

lemma adjacent_sym:
  assumes "wf_graph g" and "w \<in> set (adjacent g u)"
  shows "u \<in> set (adjacent g w)"
proof -
  from adjacent_in_range [OF assms] have r: "0 \<le> u" "u < num_vertices g" "0 \<le> w" "w < num_vertices g"
    by simp_all
  from assms(1) have "\<And>a b. a < nat (num_vertices g) \<Longrightarrow> b < nat (num_vertices g) \<Longrightarrow>
      int a \<in> set (neighbors g ! b) \<longleftrightarrow> int b \<in> set (neighbors g ! a)"
    unfolding wf_graph_def by blast
  from this [of "nat w" "nat u"] r assms(2) show ?thesis
    by (simp add: adjacent_def)
qed

lemma getitem_adjacent:
  assumes "wf_graph g" and "0 \<le> u" and "u < num_vertices g"
  shows "getitem (neighbors g) u = Inr (adjacent g u)"
  using assms by (simp add: getitem_in_range adjacent_def wf_graph_def)

lemma walk_add: "walk g (a + b) u v \<longleftrightarrow> (\<exists>w. walk g a u w \<and> walk g b w v)"
  by (induction a arbitrary: u) auto

lemma walk_Suc_back: "walk g (Suc k) u v \<longleftrightarrow> (\<exists>w. walk g k u w \<and> v \<in> set (adjacent g w))"
  using walk_add [of g k 1 u v] by simp

lemma walk_in_range:
  assumes "wf_graph g" and "walk g k u v" and "0 \<le> u \<and> u < num_vertices g"
  shows "0 \<le> v \<and> v < num_vertices g"
  using assms(2,3)
proof (induction k arbitrary: u)
  case 0
  then show ?case by simp
next
  case (Suc k)
  then obtain w where w: "w \<in> set (adjacent g u)" "walk g k w v" by auto
  from adjacent_in_range [OF assms(1) w(1)] Suc.IH [OF w(2)] show ?case by simp
qed

lemma walk_sym:
  assumes "wf_graph g"
  shows "walk g k u v \<Longrightarrow> walk g k v u"
proof (induction k arbitrary: u)
  case 0
  then show ?case by simp
next
  case (Suc k)
  then obtain w where w: "w \<in> set (adjacent g u)" "walk g k w v" by auto
  from Suc.IH [OF w(2)] adjacent_sym [OF assms w(1)] show ?case
    unfolding walk_Suc_back by blast
qed

lemma distance_is_sym: "wf_graph g \<Longrightarrow> distance_is g u v d \<Longrightarrow> distance_is g v u d"
  unfolding distance_is_def using walk_sym by blast

lemma distance_is_unique: "distance_is g u v d \<Longrightarrow> distance_is g u v d' \<Longrightarrow> d = d'"
proof -
  assume a: "distance_is g u v d" "distance_is g u v d'"
  then have "\<not> d < d'" "\<not> d' < d" unfolding distance_is_def by blast+
  then show ?thesis by simp
qed

lemma reachable_distance: "reachable g u v \<Longrightarrow> \<exists>d. distance_is g u v d"
proof -
  assume "reachable g u v"
  then obtain k where "walk g k u v" unfolding reachable_def by blast
  then have "walk g (LEAST k. walk g k u v) u v" by (rule LeastI)
  moreover have "\<not> walk g k u v" if "k < (LEAST k. walk g k u v)" for k
    using that by (rule not_less_Least)
  ultimately show ?thesis unfolding distance_is_def by blast
qed

lemma bfs_inv_source: "bfs_inv g s queue sl \<Longrightarrow> sl s = Some 0"
  by (simp add: bfs_inv_def)

lemma bfs_inv_queued: "bfs_inv g s queue sl \<Longrightarrow> (v, d) \<in> set queue \<Longrightarrow> sl v = Some d"
  by (auto simp: bfs_inv_def)

lemma bfs_inv_distance:
  "bfs_inv g s queue sl \<Longrightarrow> sl v = Some d \<Longrightarrow> 0 \<le> d \<and> distance_is g s v (nat d)"
  by (simp add: bfs_inv_def)

lemma bfs_inv_sorted: "bfs_inv g s queue sl \<Longrightarrow> sorted (map snd queue)"
  by (simp add: bfs_inv_def)

lemma bfs_inv_span:
  "bfs_inv g s queue sl \<Longrightarrow> (v, d) \<in> set queue \<Longrightarrow> d \<le> snd (hd queue) + 1"
  by (auto simp: bfs_inv_def)

lemma bfs_inv_closed:
  "bfs_inv g s queue sl \<Longrightarrow> sl v \<noteq> None \<Longrightarrow> v \<notin> fst ` set queue \<Longrightarrow>
   w \<in> set (adjacent g v) \<Longrightarrow> sl w \<noteq> None"
  unfolding bfs_inv_def by (simp add: subset_iff dom_def)

text \<open>Every vertex nearer than all queued vertices has been seen and has left the queue.\<close>

lemma bfs_inv_near:
  assumes inv: "bfs_inv g s queue sl"
  shows "walk g k s x \<Longrightarrow> (\<forall>(v, d) \<in> set queue. int k < d) \<Longrightarrow>
         sl x \<noteq> None \<and> x \<notin> fst ` set queue"
proof (induction k arbitrary: x)
  case 0
  then have x: "x = s" by simp
  from inv have s0: "sl s = Some 0" by (rule bfs_inv_source)
  have "s \<notin> fst ` set queue"
  proof
    assume "s \<in> fst ` set queue"
    then obtain d where d: "(s, d) \<in> set queue" by auto
    with inv have "sl s = Some d" by (simp add: bfs_inv_queued)
    with s0 d "0.prems"(2) show False by auto
  qed
  with s0 x show ?case by simp
next
  case (Suc k)
  from Suc.prems(1) obtain y where y: "walk g k s y" "x \<in> set (adjacent g y)"
    unfolding walk_Suc_back by blast
  from Suc.prems(2) have "\<forall>(v, d) \<in> set queue. int k < d" by auto
  from Suc.IH [OF y(1) this] have "sl y \<noteq> None" "y \<notin> fst ` set queue" by simp_all
  with inv y(2) have seen: "sl x \<noteq> None" using bfs_inv_closed by blast
  have "x \<notin> fst ` set queue"
  proof
    assume "x \<in> fst ` set queue"
    then obtain d where d: "(x, d) \<in> set queue" by auto
    with inv have "sl x = Some d" by (simp add: bfs_inv_queued)
    with inv have "distance_is g s x (nat d)" by (simp add: bfs_inv_distance)
    moreover from d Suc.prems(2) have "Suc k < nat d" by auto
    ultimately show False using Suc.prems(1) unfolding distance_is_def by blast
  qed
  with seen show ?case by simp
qed

lemma bfs_inv_init: "bfs_inv g s [(s, 0)] [s \<mapsto> 0]"
  by (auto simp: bfs_inv_def distance_is_def split: if_splits)

lemma bfs_inv_step:
  assumes wf: "wf_graph g" and inv: "bfs_inv g s ((x, d) # q) sl"
    and vis: "visit (adjacent g x) d (q, sl) = (q', sl')"
  shows "bfs_inv g s q' sl'"
proof -
  from visit_effect [of "adjacent g x" d q sl] vis obtain ws where
    q': "q' = q @ map (\<lambda>w. (w, d + 1)) ws"
    and sl': "sl' = (\<lambda>y. if y \<in> set ws then Some (d + 1) else sl y)"
    and ws: "set ws = set (adjacent g x) - dom sl"
    by auto
  have fresh: "sl w = None" if "w \<in> set ws" for w
    using that ws by auto
  have old: "sl' y = sl y" if "sl y \<noteq> None" for y
    using that fresh [of y] by (auto simp: sl')
  have new: "sl' w = Some (d + 1)" if "w \<in> set ws" for w
    using that by (simp add: sl')
  have xd: "sl x = Some d"
    using bfs_inv_queued [OF inv, of x d] by simp
  from bfs_inv_distance [OF inv xd] have d0: "0 \<le> d" and dx: "distance_is g s x (nat d)"
    by simp_all
  have ge: "d \<le> e" if "(v, e) \<in> set q" for v e
    using bfs_inv_sorted [OF inv] that by (auto simp: image_iff) 
  have le: "e \<le> d + 1" if "(v, e) \<in> set q" for v e
    using bfs_inv_span [OF inv, of v e] that by simp
  have i0: "sl' s = Some 0"
    using old [of s] bfs_inv_source [OF inv] by simp
  have i1: "sl' v = Some e" if "(v, e) \<in> set q'" for v e
  proof (cases "(v, e) \<in> set q")
    case True
    then have "sl v = Some e" using bfs_inv_queued [OF inv, of v e] by simp
    then show ?thesis using old [of v] by simp
  next
    case False
    with that have "v \<in> set ws" "e = d + 1" by (auto simp: q')
    then show ?thesis by (simp add: new)
  qed
  have i2: "0 \<le> e \<and> distance_is g s v (nat e)" if "sl' v = Some e" for v e
  proof (cases "v \<in> set ws")
    case True
    with that have e: "e = d + 1" by (simp add: sl')
    have nat_e: "nat e = Suc (nat d)" using d0 e by simp
    from True ws have adj: "v \<in> set (adjacent g x)" by simp
    have w: "walk g (Suc (nat d)) s v"
      unfolding walk_Suc_back using dx adj unfolding distance_is_def by blast
    have "\<not> walk g k s v" if k: "k < Suc (nat d)" for k
    proof
      assume wk: "walk g k s v"
      show False
      proof (cases k)
        case 0
        with wk have "v = s" by simp
        with fresh [OF True] bfs_inv_source [OF inv] show False by simp
      next
        case (Suc j)
        with wk have "walk g (Suc j) s v" by simp
        then obtain y where y: "walk g j s y" "v \<in> set (adjacent g y)"
          unfolding walk_Suc_back by blast
        have "\<forall>(u, c) \<in> set ((x, d) # q). int j < c"
          using k Suc ge by fastforce
        from bfs_inv_near [OF inv y(1) this]
        have "sl y \<noteq> None" "y \<notin> fst ` set ((x, d) # q)" by simp_all
        from bfs_inv_closed [OF inv this y(2)] fresh [OF True] show False by simp
      qed
    qed
    with w d0 e nat_e show ?thesis by (simp add: distance_is_def)
  next
    case False
    with that have "sl v = Some e" by (simp add: sl')
    then show ?thesis by (rule bfs_inv_distance [OF inv])
  qed
  have sq: "sorted (map snd q)"
    using bfs_inv_sorted [OF inv] by simp
  have "map (\<lambda>w. d + 1) ws = replicate (length ws) (d + 1)"
    by (simp add: map_replicate_const)
  then have i3: "sorted (map snd q')"
    unfolding q' using sq le by (auto simp: sorted_append o_def)
  have all_ge: "d \<le> e" if "(v, e) \<in> set q'" for v e
    using that ge by (auto simp: q')
  have all_le: "e \<le> d + 1" if "(v, e) \<in> set q'" for v e
    using that le by (auto simp: q')
  have i3b: "e \<le> snd (hd q') + 1" if "(v, e) \<in> set q'" for v e
  proof -
    from that have "q' \<noteq> []" by auto
    then have "hd q' \<in> set q'" by simp
    then have "d \<le> snd (hd q')" using all_ge [of "fst (hd q')" "snd (hd q')"] by simp
    with all_le [OF that] show ?thesis by simp
  qed
  have i4: "sl' w \<noteq> None" if v: "sl' v \<noteq> None" "v \<notin> fst ` set q'" and w: "w \<in> set (adjacent g v)"
    for v w
  proof (cases "v = x")
    case True
    with w ws show ?thesis by (auto simp: sl')
  next
    case False
    have "v \<in> fst ` set q'" if "v \<in> set ws"
      using that by (force simp: q' image_iff)
    with v(2) have nws: "v \<notin> set ws" and nq: "v \<notin> fst ` set q"
      by (auto simp: q')
    from nws v(1) have "sl v \<noteq> None" by (simp add: sl')
    moreover from nq False have "v \<notin> fst ` set ((x, d) # q)" by simp
    ultimately have "sl w \<noteq> None" using bfs_inv_closed [OF inv _ _ w] by blast
    then show ?thesis using old [of w] by simp
  qed
  show ?thesis
    unfolding bfs_inv_def
  proof (intro conjI)
    show "sl' s = Some 0" by (rule i0)
    show "\<forall>(v, d) \<in> set q'. sl' v = Some d" using i1 by blast
    show "\<forall>v d. sl' v = Some d \<longrightarrow> 0 \<le> d \<and> distance_is g s v (nat d)" using i2 by blast
    show "sorted (map snd q')" by (rule i3)
    show "\<forall>(v, d) \<in> set q'. d \<le> snd (hd q') + 1" using i3b by blast
    show "\<forall>v. sl' v \<noteq> None \<and> v \<notin> fst ` set q' \<longrightarrow> set (adjacent g v) \<subseteq> dom sl'"
      using i4 by (auto simp: dom_def)
  qed
qed

lemma shortest_path_loop_correct:
  "wf_graph g \<Longrightarrow> 0 \<le> s \<and> s < num_vertices g \<Longrightarrow> bfs_inv g s queue sl \<Longrightarrow>
   \<exists>m. shortest_path_loop g queue sl = Inr m \<and> bfs_inv g s [] m"
proof (induction g queue sl rule: shortest_path_loop.induct)
  case (1 g sl)
  then show ?case by simp
next
  case (2 g v queue sl)
  note wf = "2.prems"(1) and s = "2.prems"(2)
  obtain x d where v: "v = (x, d)" by (cases v)
  from "2.prems" have inv: "bfs_inv g s ((x, d) # queue) sl" by (simp add: v)
  have "sl x = Some d" using bfs_inv_queued [OF inv, of x d] by simp
  from bfs_inv_distance [OF inv this] have "walk g (nat d) s x"
    by (simp add: distance_is_def)
  from walk_in_range [OF wf this s] have x: "0 \<le> x" "x < num_vertices g" by simp_all
  have gi: "getitem (neighbors g) (fst v) = Inr (adjacent g x)"
    using getitem_adjacent [OF wf x] by (simp add: v)
  obtain q' sl' where vis: "visit (adjacent g x) d (queue, sl) = (q', sl')"
    by (cases "visit (adjacent g x) d (queue, sl)")
  from bfs_inv_step [OF wf inv vis] have inv': "bfs_inv g s q' sl'" .
  have "\<exists>m. shortest_path_loop g q' sl' = Inr m \<and> bfs_inv g s [] m"
    by (rule "2.IH" [OF gi _ wf s inv']) (simp add: vis v)
  then obtain m where "shortest_path_loop g q' sl' = Inr m" "bfs_inv g s [] m"
    by blast
  then show ?case using gi vis by (simp add: v)
qed

lemma shortest_path_distances:
  assumes wf: "wf_graph g" and s: "0 \<le> s \<and> s < num_vertices g"
  shows "\<exists>m. shortest_path g s = Inr m \<and> m s = Some 0 \<and>
           (\<forall>u d. m u = Some d \<longleftrightarrow> 0 \<le> d \<and> distance_is g s u (nat d))"
proof -
  from shortest_path_loop_correct [OF wf s bfs_inv_init] obtain m where
    m: "shortest_path g s = Inr m" and inv: "bfs_inv g s [] m"
    unfolding shortest_path_def by blast
  have "m u = Some d \<longleftrightarrow> 0 \<le> d \<and> distance_is g s u (nat d)" for u d
  proof
    assume "m u = Some d"
    then show "0 \<le> d \<and> distance_is g s u (nat d)" by (rule bfs_inv_distance [OF inv])
  next
    assume d: "0 \<le> d \<and> distance_is g s u (nat d)"
    then have "walk g (nat d) s u" by (simp add: distance_is_def)
    from bfs_inv_near [OF inv this] obtain e where e: "m u = Some e" by auto
    from bfs_inv_distance [OF inv e] have "0 \<le> e" "distance_is g s u (nat e)" by simp_all
    with d have "nat e = nat d" using distance_is_unique by blast
    with d \<open>0 \<le> e\<close> have "e = d" by linarith
    with e show "m u = Some d" by simp
  qed
  with m bfs_inv_source [OF inv] show ?thesis by blast
qed

text \<open>
  C5. On a graph constructed from in-range edges, for vertices \<open>u\<close> and \<open>v\<close>:
  \<^verbatim>\<open>shortest_path(v)\<close> returns a mapping (it raises nothing), the mapping sends
  \<open>v\<close> to 0, when \<open>u\<close> is reachable from \<open>v\<close> it has an entry for \<open>u\<close> equal
  to the entry of \<^verbatim>\<open>shortest_path(u)\<close> for \<open>v\<close>, and a vertex has no entry
  exactly when it is unreachable from \<open>v\<close>.
\<close>

theorem shortest_path_symmetric:
  assumes "in_range n es" and "Graph n es = Inr g"
    and "0 \<le> v" and "v < n" and "0 \<le> u" and "u < n"
  shows "\<exists>m m'. shortest_path g v = Inr m \<and> shortest_path g u = Inr m' \<and>
           m v = Some 0 \<and>
           (reachable g v u \<longrightarrow> m u \<noteq> None \<and> m u = m' v) \<and>
           (\<forall>w. m w = None \<longleftrightarrow> \<not> reachable g v w)"
proof -
  have wf: "wf_graph g" using assms(1,2) by (rule Graph_wf)
  have n: "num_vertices g = n" using Graph_fields [OF assms(2)] by simp
  from shortest_path_distances [OF wf, of v] assms n obtain m where
    m: "shortest_path g v = Inr m" "m v = Some 0"
    and dm: "\<And>w d. m w = Some d \<longleftrightarrow> 0 \<le> d \<and> distance_is g v w (nat d)"
    by auto
  from shortest_path_distances [OF wf, of u] assms n obtain m' where
    m': "shortest_path g u = Inr m'"
    and dm': "\<And>w d. m' w = Some d \<longleftrightarrow> 0 \<le> d \<and> distance_is g u w (nat d)"
    by auto
  have seen: "m w \<noteq> None" if "reachable g v w" for w
  proof -
    from reachable_distance [OF that] obtain k where "distance_is g v w k" by blast
    then have "m w = Some (int k)" using dm [of w "int k"] by simp
    then show ?thesis by simp
  qed
  have unseen: "reachable g v w" if "m w \<noteq> None" for w
  proof -
    from that obtain d where "m w = Some d" by auto
    with dm [of w d] have "walk g (nat d) v w" by (simp add: distance_is_def)
    then show ?thesis unfolding reachable_def by blast
  qed
  have sym: "m u = m' v" if "reachable g v u"
  proof -
    from reachable_distance [OF that] obtain k where k: "distance_is g v u k" by blast
    then have "m u = Some (int k)" using dm [of u "int k"] by simp
    moreover from distance_is_sym [OF wf k] have "m' v = Some (int k)"
      using dm' [of v "int k"] by simp
    ultimately show ?thesis by simp
  qed
  show ?thesis
    using m m' seen unseen sym by blast
qed

lemma shortest_path_ring6:
  "case shortest_path ring6 0 of Inl e \<Rightarrow> False
   | Inr m \<Rightarrow> map m [0, 1, 2, 3, 4, 5] = [Some 0, Some 1, Some 2, Some 3, Some 2, Some 1]"
  by code_simp

lemma reachable_ring6: "reachable ring6 0 3"
proof -
  have "walk ring6 3 0 3" by code_simp
  then show ?thesis unfolding reachable_def by blast
qed

theorem shortest_path_symmetric_witness:
  "in_range 6 [(0, 5), (1, 0), (2, 1), (3, 2), (4, 3), (5, 4)] \<and>
   Graph 6 [(0, 5), (1, 0), (2, 1), (3, 2), (4, 3), (5, 4)] = Inr ring6 \<and>
   reachable ring6 0 3 \<and>
   (\<exists>m m'. shortest_path ring6 0 = Inr m \<and> shortest_path ring6 3 = Inr m' \<and>
           m 0 = Some 0 \<and> m 3 \<noteq> None \<and> m 3 = m' 0 \<and>
           (\<forall>w. m w = None \<longleftrightarrow> \<not> reachable ring6 0 w))"
proof -
  have r: "in_range 6 [(0, 5), (1, 0), (2, 1), (3, 2), (4, 3), (5, 4)]"
    by (simp add: in_range_def)
  show ?thesis
    using r Graph_ring6 reachable_ring6 shortest_path_symmetric [OF r Graph_ring6, of 0 3]
    by simp
qed

section \<open>The sampled average counts the source\<close>

lemma shortest_path_single_edge_0: "shortest_path single_edge 0 = Inr [0 \<mapsto> 0, 1 \<mapsto> 1]"
  by (simp add: shortest_path_def single_edge_def getitem_def py_index_def)

lemma shortest_path_single_edge_1: "shortest_path single_edge 1 = Inr [1 \<mapsto> 0, 0 \<mapsto> 1]"
  by (simp add: shortest_path_def single_edge_def getitem_def py_index_def)

lemma py_range_2: "py_range 2 = [0, 1]"
  by code_simp

lemma sample_source_single_edge:
  assumes "v1 = 0 \<or> v1 = 1" and "0 \<le> count"
  shows "sample_source single_edge ((avg, count), v1 # draws) =
           Some (Inr (((avg * of_int count + 1) / (of_int count + 2), count + 2), draws))"
proof -
  have n: "num_vertices single_edge = 2" by (simp add: single_edge_def)
  have p1: "(of_int count :: rat) + 1 \<noteq> 0" and p2: "(of_int count :: rat) + 2 \<noteq> 0"
    using assms(2) by (simp_all add: add_nonneg_eq_0_iff)
  from assms(1) show ?thesis
  proof
    assume "v1 = 0"
    then show ?thesis
      using p1 p2
      by (simp add: sample_source_def randint_def n shortest_path_single_edge_0 py_range_2
          accumulate_def truediv_def)
  next
    assume "v1 = 1"
    then show ?thesis
      using p1 p2
      by (simp add: sample_source_def randint_def n shortest_path_single_edge_1 py_range_2
          accumulate_def truediv_def)
  qed
qed

lemma sample_loop_single_edge:
  "length xs \<le> length draws \<Longrightarrow> set (take (length xs) draws) \<subseteq> {0, 1} \<Longrightarrow>
   0 \<le> count \<Longrightarrow> 2 * avg * of_int count = of_int count \<Longrightarrow>
   \<exists>avg'. for_loop_rand (\<lambda>i. sample_source single_edge) xs ((avg, count), draws) =
       Some (Inr ((avg', count + 2 * int (length xs)), drop (length xs) draws)) \<and>
     2 * avg' * of_int (count + 2 * int (length xs)) = of_int (count + 2 * int (length xs))"
proof (induction xs arbitrary: avg count draws)
  case Nil
  then show ?case by simp
next
  case (Cons x xs)
  from Cons.prems(1) obtain v1 rest where d: "draws = v1 # rest" by (cases draws) auto
  with Cons.prems have v1: "v1 = 0 \<or> v1 = 1" and len: "length xs \<le> length rest"
    and sub: "set (take (length xs) rest) \<subseteq> {0, 1}" by auto
  let ?a = "(avg * of_int count + 1) / (of_int count + 2)"
  have p2: "(of_int count :: rat) + 2 \<noteq> 0"
    using Cons.prems(3) by (simp add: add_nonneg_eq_0_iff)
  have step: "sample_source single_edge ((avg, count), draws) =
      Some (Inr ((?a, count + 2), rest))"
    unfolding d using v1 Cons.prems(3) by (rule sample_source_single_edge)
  have "2 * ?a * (of_int count + 2) = 2 * (avg * of_int count + 1)"
    using p2 by simp
  also have "\<dots> = of_int count + 2"
    using Cons.prems(4) by (simp add: algebra_simps)
  finally have "2 * ?a * of_int (count + 2) = of_int (count + 2)"
    by simp
  from Cons.IH [OF len sub _ this] Cons.prems(3) obtain avg' where
    r: "for_loop_rand (\<lambda>i. sample_source single_edge) xs ((?a, count + 2), rest) =
       Some (Inr ((avg', count + 2 + 2 * int (length xs)), drop (length xs) rest))"
    "2 * avg' * of_int (count + 2 + 2 * int (length xs)) = of_int (count + 2 + 2 * int (length xs))"
    by auto
  have eq: "count + 2 + 2 * int (length xs) = count + 2 * int (length (x # xs))"
    by simp
  have "for_loop_rand (\<lambda>i. sample_source single_edge) (x # xs) ((avg, count), draws) =
      for_loop_rand (\<lambda>i. sample_source single_edge) xs ((?a, count + 2), rest)"
    by (simp add: step)
  moreover have "drop (length (x # xs)) draws = drop (length xs) rest"
    by (simp add: d)
  ultimately show ?case
    using r unfolding eq by (intro exI [of _ avg']) simp
qed

lemma length_py_range_20: "length (py_range 20) = 20"
  by (simp add: length_py_range)

lemma shortest_path_len_single_edge: "shortest_path_len single_edge = Inr 1"
  by code_simp

text \<open>
  C4. The sampled average does not run over the vertices other than the source: the
  source itself is counted, at distance 0. On the graph with the two vertices 0 and 1
  and the edge \<open>(0, 1)\<close> the only other vertex is at distance 1 from either source,
  and \<^verbatim>\<open>shortest_path_len()\<close> returns 1; \<^verbatim>\<open>shortest_path_len_random()\<close>
  returns one half, whatever the twenty sources drawn.
\<close>

theorem shortest_path_len_random_counts_source:
  assumes "length draws = 20" and "set draws \<subseteq> {0, 1}"
  shows "shortest_path_len_random single_edge draws = Some (Inr (1 / 2)) \<and>
         shortest_path_len single_edge = Inr 1"
proof -
  from sample_loop_single_edge [of "py_range 20" draws 0 0] assms obtain avg' where
    l: "for_loop_rand (\<lambda>i. sample_source single_edge) (py_range 20) ((0, 0), draws) =
       Some (Inr ((avg', 40), []))"
    and a: "2 * avg' * 40 = 40"
    by (auto simp: length_py_range_20)
  from a have "avg' = 1 / 2" by simp
  with l show ?thesis
    by (simp add: shortest_path_len_random_def shortest_path_len_single_edge)
qed

theorem shortest_path_len_random_counts_source_witness:
  "length [0, 1, 1, 0, 1, 0, 0, 1, 1, 1, 0, 0, 0, 1, 0, 1, 1, 0, 1, 0 :: int] = 20 \<and>
   shortest_path_len_random single_edge [0, 1, 1, 0, 1, 0, 0, 1, 1, 1, 0, 0, 0, 1, 0, 1, 1, 0, 1, 0]
     = Some (Inr (1 / 2)) \<and>
   shortest_path_len single_edge = Inr 1"
  using shortest_path_len_random_counts_source
    [of "[0, 1, 1, 0, 1, 0, 0, 1, 1, 1, 0, 0, 0, 1, 0, 1, 1, 0, 1, 0]"]
  by simp

section \<open>The rewiring generator keeps edge lists free of duplicates\<close>

lemma draw_edge_member:
  "draw_edge ape draws = Some (Inr (new_edge, draws')) \<Longrightarrow> new_edge \<in> set ape"
  by (auto simp: draw_edge_def split: option.splits sum.splits dest: getitem_Inr)

lemma redraw_result:
  "redraw ape new_edges new_edge draws = Some (Inr (e, draws')) \<Longrightarrow>
   e \<notin> set new_edges \<and> (e = new_edge \<or> e \<in> set ape)"
proof (induction ape new_edges new_edge draws rule: redraw.induct)
  case (1 ape new_edges new_edge draws)
  show ?case
  proof (cases "new_edge \<in> set new_edges")
    case False
    with "1.prems" show ?thesis by (simp add: redraw.simps [of ape new_edges new_edge draws])
  next
    case True
    with "1.prems" obtain e1 d1 where
      d: "draw_edge ape draws = Some (Inr (e1, d1))"
      and r: "redraw ape new_edges e1 d1 = Some (Inr (e, draws'))"
      by (auto simp: redraw.simps [of ape new_edges new_edge draws]
          split: option.splits sum.splits)
    from "1.IH" [OF True d refl refl r] draw_edge_member [OF d] show ?thesis by auto
  qed
qed

lemma setitem_in_range:
  "0 \<le> i \<Longrightarrow> i < int (length xs) \<Longrightarrow> setitem xs i v = Inr (xs[nat i := v])"
  by (simp add: setitem_def py_index_in_range)

lemma rewire_effect:
  assumes "rewire g p i (new_edges, uniforms, draws) = Some (Inr (new_edges', uniforms', draws'))"
    and "0 \<le> i" and "i < int (length new_edges)"
  shows "\<exists>u. uniforms = u # uniforms' \<and>
           (if u < p
            then \<exists>e. e \<in> set (all_possible_edges g) \<and> e \<notin> set new_edges \<and>
                   new_edges' = new_edges[nat i := e]
            else new_edges' = new_edges \<and> draws' = draws)"
proof -
  from assms(1) obtain u where u: "uniforms = u # uniforms'"
    by (auto simp: rewire_def rand_random_def split: list.splits if_splits option.splits sum.splits)
  show ?thesis
  proof (cases "u < p")
    case False
    with assms(1) u show ?thesis by (simp add: rewire_def rand_random_def)
  next
    case True
    with assms(1) u obtain e1 d1 e where
      d: "draw_edge (all_possible_edges g) draws = Some (Inr (e1, d1))"
      and r: "redraw (all_possible_edges g) new_edges e1 d1 = Some (Inr (e, draws'))"
      and s: "setitem new_edges i e = Inr new_edges'"
      by (auto simp: rewire_def rand_random_def split: option.splits sum.splits)
    from redraw_result [OF r] draw_edge_member [OF d]
    have "e \<in> set (all_possible_edges g)" "e \<notin> set new_edges" by auto
    moreover from s assms(2,3) have "new_edges' = new_edges[nat i := e]"
      by (simp add: setitem_in_range)
    ultimately have "\<exists>e. e \<in> set (all_possible_edges g) \<and> e \<notin> set new_edges \<and>
        new_edges' = new_edges[nat i := e]" by blast
    with True u show ?thesis by simp
  qed
qed

lemma for_loop_rand_invariant:
  "for_loop_rand body xs s = Some (Inr s') \<Longrightarrow> P s \<Longrightarrow>
   (\<And>x t t'. x \<in> set xs \<Longrightarrow> P t \<Longrightarrow> body x t = Some (Inr t') \<Longrightarrow> P t') \<Longrightarrow> P s'"
proof (induction xs arbitrary: s)
  case Nil
  then show ?case by simp
next
  case (Cons x xs)
  from Cons.prems(1) obtain t where t: "body x s = Some (Inr t)" "for_loop_rand body xs t = Some (Inr s')"
    by (auto split: option.splits sum.splits)
  have "P t" using Cons.prems(3) [of x s t] Cons.prems(2) t(1) by simp
  show ?case
    by (rule Cons.IH [OF t(2) \<open>P t\<close>]) (rule Cons.prems(3), simp_all)
qed

lemma for_loop_rand_indexed:
  "for_loop_rand body xs s = Some (Inr s') \<Longrightarrow> P 0 s \<Longrightarrow>
   (\<And>k t t'. k < length xs \<Longrightarrow> P k t \<Longrightarrow> body (xs ! k) t = Some (Inr t') \<Longrightarrow> P (Suc k) t') \<Longrightarrow>
   P (length xs) s'"
proof (induction xs arbitrary: s P)
  case Nil
  then show ?case by simp
next
  case (Cons x xs)
  from Cons.prems(1) obtain t where t: "body x s = Some (Inr t)" "for_loop_rand body xs t = Some (Inr s')"
    by (auto split: option.splits sum.splits)
  have p1: "P (Suc 0) t" using Cons.prems(3) [of 0 s t] Cons.prems(2) t(1) by simp
  have "P (Suc (length xs)) s'"
  proof (rule Cons.IH [where P = "\<lambda>k. P (Suc k)", OF t(2) p1])
    fix k u u'
    assume "k < length xs" "P (Suc k) u" "body (xs ! k) u = Some (Inr u')"
    then show "P (Suc (Suc k)) u'"
      using Cons.prems(3) [of "Suc k" u u'] by simp
  qed
  then show ?case by simp
qed

lemma randomize_graph_result:
  assumes "randomize_graph g p uniforms draws = Some (Inr g')"
  shows "\<exists>new_edges uniforms' draws'.
           for_loop_rand (rewire g p) (py_range (len (edges g))) (edges g, uniforms, draws) =
             Some (Inr (new_edges, uniforms', draws')) \<and>
           Graph (num_vertices g) new_edges = Inr g' \<and> edges g' = new_edges \<and>
           num_vertices g' = num_vertices g"
  using assms
  by (auto simp: randomize_graph_def Graph_fields split: option.splits sum.splits)

lemma randomize_graph_distinct:
  assumes r: "randomize_graph g p uniforms draws = Some (Inr g')" and d: "distinct (edges g)"
  shows "distinct (edges g') \<and> length (edges g') = length (edges g) \<and>
         set (edges g') \<subseteq> set (edges g) \<union> set (all_possible_edges g)"
proof -
  let ?m = "length (edges g)"
  let ?P = "\<lambda>s. case s of (ne, us, ks) \<Rightarrow> distinct ne \<and> length ne = ?m \<and>
      set ne \<subseteq> set (edges g) \<union> set (all_possible_edges g)"
  from randomize_graph_result [OF r] obtain ne us ks where
    l: "for_loop_rand (rewire g p) (py_range (len (edges g))) (edges g, uniforms, draws) =
          Some (Inr (ne, us, ks))"
    and e: "edges g' = ne" by blast
  have "?P (ne, us, ks)"
  proof (rule for_loop_rand_invariant [where P = ?P, OF l])
    show "?P (edges g, uniforms, draws)" using d by simp
  next
    fix i t t'
    assume i: "i \<in> set (py_range (len (edges g)))" and t: "?P t"
      and step: "rewire g p i t = Some (Inr t')"
    obtain ne1 us1 ks1 where t1: "t = (ne1, us1, ks1)" by (cases t)
    obtain ne2 us2 ks2 where t2: "t' = (ne2, us2, ks2)" by (cases t')
    from i t t1 have ir: "0 \<le> i" "i < int (length ne1)"
      by (simp_all add: set_py_range len_def)
    from rewire_effect [OF step [unfolded t1 t2] ir] obtain u where
      eff: "if u < p
            then \<exists>e. e \<in> set (all_possible_edges g) \<and> e \<notin> set ne1 \<and> ne2 = ne1[nat i := e]
            else ne2 = ne1 \<and> ks2 = ks1"
      by blast
    show "?P t'"
    proof (cases "u < p")
      case False
      with eff t t1 t2 show ?thesis by simp
    next
      case True
      with eff obtain e where e: "e \<in> set (all_possible_edges g)" "e \<notin> set ne1"
        "ne2 = ne1[nat i := e]" by auto
      from t t1 have "distinct ne1" "length ne1 = ?m"
        "set ne1 \<subseteq> set (edges g) \<union> set (all_possible_edges g)" by simp_all
      moreover from this(1) e(2) have "distinct (ne1[nat i := e])"
        by (simp add: distinct_list_update)
      moreover have "set (ne1[nat i := e]) \<subseteq> insert e (set ne1)"
        by (rule set_update_subset_insert)
      ultimately show ?thesis using e(1,3) t2 by auto
    qed
  qed
  with e show ?thesis by simp
qed

lemma unordered_ascending: "fst e < snd e \<Longrightarrow> unordered e = e"
  by (simp add: unordered_def min_def max_def)

lemma ascending_build_all_possible_edges: "ascending (build_all_possible_edges n)"
  by (auto simp: ascending_def set_build_all_possible_edges)

text \<open>
  What a run that returns has done, position by position: the edge at position \<open>i\<close>
  is replaced exactly when the \<open>i\<close>-th value of \<^verbatim>\<open>rand.random()\<close> is below
  \<open>p\<close>, and then by an edge of \<open>all_possible_edges\<close> that was in the list
  neither among the edges already settled nor among the edges still to come.
\<close>

lemma randomize_graph_positions:
  assumes r: "randomize_graph g p uniforms draws = Some (Inr g')"
  shows "length (edges g') = length (edges g) \<and> length (edges g) \<le> length uniforms \<and>
         (\<forall>i < length (edges g).
            if uniforms ! i < p
            then edges g' ! i \<in> set (all_possible_edges g) \<and>
                 edges g' ! i \<notin> set (take i (edges g')) \<and>
                 edges g' ! i \<notin> set (drop i (edges g))
            else edges g' ! i = edges g ! i)"
proof -
  let ?es = "edges g"
  let ?m = "length ?es"
  let ?ok = "\<lambda>ne j. if uniforms ! j < p
      then ne ! j \<in> set (all_possible_edges g) \<and> ne ! j \<notin> set (take j ne) \<and>
           ne ! j \<notin> set (drop j ?es)
      else ne ! j = ?es ! j"
  let ?P = "\<lambda>k s. case s of (ne, us, ks) \<Rightarrow>
      length ne = ?m \<and> k \<le> length uniforms \<and> us = drop k uniforms \<and>
      drop k ne = drop k ?es \<and> (\<forall>j < k. ?ok ne j)"
  from randomize_graph_result [OF r] obtain ne us ks where
    l: "for_loop_rand (rewire g p) (py_range (len ?es)) (?es, uniforms, draws) =
          Some (Inr (ne, us, ks))"
    and e: "edges g' = ne" by blast
  have xs: "py_range (len ?es) = map int [0..<?m]"
    by (simp add: len_def py_range_int)
  have "?P (length (map int [0..<?m])) (ne, us, ks)"
  proof (rule for_loop_rand_indexed [where P = ?P, OF l [unfolded xs]])
    show "?P 0 (?es, uniforms, draws)" by simp
  next
    fix k t t'
    assume k: "k < length (map int [0..<?m])" and t: "?P k t"
      and step: "rewire g p (map int [0..<?m] ! k) t = Some (Inr t')"
    obtain ne1 us1 ks1 where t1: "t = (ne1, us1, ks1)" by (cases t)
    obtain ne2 us2 ks2 where t2: "t' = (ne2, us2, ks2)" by (cases t')
    from k have km: "k < ?m" by simp
    from t t1 have inv: "length ne1 = ?m" "k \<le> length uniforms" "us1 = drop k uniforms"
      "drop k ne1 = drop k ?es" "\<And>j. j < k \<Longrightarrow> ?ok ne1 j"
      by simp_all
    from step km have step': "rewire g p (int k) (ne1, us1, ks1) = Some (Inr (ne2, us2, ks2))"
      by (simp add: t1 t2)
    from rewire_effect [OF step'] km inv(1) obtain u where
      u: "us1 = u # us2"
      and eff: "if u < p
            then \<exists>e. e \<in> set (all_possible_edges g) \<and> e \<notin> set ne1 \<and> ne2 = ne1[nat (int k) := e]
            else ne2 = ne1 \<and> ks2 = ks1"
      by auto
    from u inv(3) have dk: "drop k uniforms = u # us2" by simp
    then have kl: "k < length uniforms"
      by (cases "k < length uniforms") simp_all
    from dk have uk: "uniforms ! k = u"
      using nth_via_drop by fastforce
    from dk have us2: "us2 = drop (Suc k) uniforms"
      by (metis drop_Suc tl_drop list.sel(3))
    have k1: "k < length ne1" using km inv(1) by simp
    have nk: "ne1 ! k = ?es ! k"
    proof -
      have "ne1 ! k = hd (drop k ne1)" using k1 by (simp add: hd_drop_conv_nth)
      also have "\<dots> = hd (drop k ?es)" by (simp only: inv(4))
      also have "\<dots> = ?es ! k" using km by (simp add: hd_drop_conv_nth)
      finally show ?thesis .
    qed
    have sub: "set (drop k ?es) \<subseteq> set ne1"
      using inv(4) set_drop_subset [of k ne1] by simp
    show "?P (Suc k) t'"
    proof (cases "u < p")
      case False
      with eff have same: "ne2 = ne1" by simp
      have "?ok ne1 j" if "j < Suc k" for j
      proof (cases "j = k")
        case True
        with False uk nk show ?thesis by simp
      next
        case False
        with that inv(5) [of j] show ?thesis by simp
      qed
      moreover have "drop (Suc k) ne1 = drop (Suc k) ?es"
      proof -
        have "drop (Suc k) ne1 = drop 1 (drop k ne1)" by simp
        also have "\<dots> = drop 1 (drop k ?es)" by (simp only: inv(4))
        finally show ?thesis by simp
      qed
      ultimately show ?thesis
        using inv(1) kl us2 by (simp add: t2 same)
    next
      case True
      with eff obtain e where e: "e \<in> set (all_possible_edges g)" "e \<notin> set ne1"
        "ne2 = ne1[k := e]" by auto
      have dr: "drop (Suc k) ne2 = drop (Suc k) ?es"
      proof -
        have "drop (Suc k) ne2 = drop (Suc k) ne1" by (simp add: e(3))
        also have "\<dots> = drop 1 (drop k ne1)" by simp
        also have "\<dots> = drop 1 (drop k ?es)" by (simp only: inv(4))
        finally show ?thesis by simp
      qed
      have "?ok ne2 j" if "j < Suc k" for j
      proof (cases "j = k")
        case jk: True
        have "e \<notin> set (take k ne1)" using e(2) by (auto dest: in_set_takeD)
        moreover have "e \<notin> set (drop k ?es)" using e(2) sub by blast
        ultimately show ?thesis
          using True uk k1 e(1) by (simp add: jk e(3))
      next
        case False
        with that have jk: "j < k" by simp
        with inv(5) [of j] show ?thesis by (simp add: e(3))
      qed
      moreover have "length ne2 = ?m" by (simp add: e(3) inv(1))
      ultimately show ?thesis
        using dr kl us2 by (simp add: t2)
    qed
  qed
  then have fin: "length ne = ?m" "?m \<le> length uniforms" "\<And>j. j < ?m \<Longrightarrow> ?ok ne j"
    by auto
  then show ?thesis by (simp add: e)
qed

text \<open>
  C1 (amended). For a graph whose edges are written ascending and without duplicates,
  and for every \<open>p\<close> and every random source: when \<^verbatim>\<open>randomize_graph(p)\<close>
  returns a graph, the edge at position \<open>i\<close> has been replaced exactly when the
  \<open>i\<close>-th random value is below \<open>p\<close>, by an edge of \<open>all_possible_edges\<close>
  that was not in the evolving edge list; and the edges returned are ascending and no
  two of them are the same unordered pair.
\<close>

theorem randomize_graph_no_duplicates:
  assumes "Graph n es = Inr g" and "ascending es" and "distinct es"
    and "randomize_graph g p uniforms draws = Some (Inr g')"
  shows "length (edges g') = length es \<and>
         (\<forall>i < length es.
            if uniforms ! i < p
            then edges g' ! i \<in> set (all_possible_edges g) \<and>
                 edges g' ! i \<notin> set (take i (edges g')) \<and>
                 edges g' ! i \<notin> set (drop i es)
            else edges g' ! i = es ! i) \<and>
         ascending (edges g') \<and> distinct (map unordered (edges g'))"
proof -
  from Graph_fields [OF assms(1)] have f: "edges g = es"
    "all_possible_edges g = build_all_possible_edges n" by simp_all
  from randomize_graph_distinct [OF assms(4)] assms(3) f have
    d: "distinct (edges g')"
    and s: "set (edges g') \<subseteq> set es \<union> set (build_all_possible_edges n)"
    by simp_all
  from s assms(2) ascending_build_all_possible_edges [of n] have a: "ascending (edges g')"
    unfolding ascending_def by blast
  then have "map unordered (edges g') = edges g'"
    by (intro map_idI) (simp add: ascending_def unordered_ascending)
  with d a randomize_graph_positions [OF assms(4), unfolded f(1)] show ?thesis by simp
qed

lemma rewire_never:
  "0 \<le> u \<Longrightarrow> rewire g 0 i (new_edges, u # uniforms, draws) = Some (Inr (new_edges, uniforms, draws))"
  by (simp add: rewire_def rand_random_def)

lemma for_loop_rand_rewire_never:
  "length xs \<le> length uniforms \<Longrightarrow> \<forall>u \<in> set uniforms. 0 \<le> u \<Longrightarrow>
   for_loop_rand (rewire g 0) xs (new_edges, uniforms, draws) =
     Some (Inr (new_edges, drop (length xs) uniforms, draws))"
proof (induction xs arbitrary: uniforms)
  case Nil
  then show ?case by simp
next
  case (Cons x xs)
  then obtain u rest where u: "uniforms = u # rest" by (cases uniforms) auto
  with Cons.prems have "0 \<le> u" "length xs \<le> length rest" "\<forall>u \<in> set rest. 0 \<le> u"
    by simp_all
  with Cons.IH [of rest] show ?case by (simp add: u rewire_never)
qed

lemma randomize_graph_zero:
  assumes "Graph n es = Inr g" and "length es \<le> length uniforms" and "\<forall>u \<in> set uniforms. 0 \<le> u"
  shows "randomize_graph g 0 uniforms draws = Some (Inr g)"
proof -
  from Graph_fields [OF assms(1)] have f: "edges g = es" "num_vertices g = n" by simp_all
  have "length (py_range (len es)) \<le> length uniforms"
    using assms(2) by (simp add: length_py_range len_def)
  from for_loop_rand_rewire_never [OF this assms(3)] show ?thesis
    by (simp add: randomize_graph_def f assms(1))
qed

lemma randomize_graph_one:
  assumes r: "randomize_graph g 1 uniforms draws = Some (Inr g')"
    and u1: "\<forall>u \<in> set uniforms. u < 1"
  shows "length (edges g') = length (edges g) \<and> distinct (edges g') \<and>
         (\<forall>i < length (edges g). edges g' ! i \<in> set (all_possible_edges g) \<and>
            edges g' ! i \<notin> set (drop i (edges g)))"
proof -
  let ?es = "edges g"
  let ?m = "length ?es"
  let ?P = "\<lambda>k s. case s of (ne, us, ks) \<Rightarrow>
      length ne = ?m \<and> set us \<subseteq> set uniforms \<and> distinct (take k ne) \<and>
      drop k ne = drop k ?es \<and>
      (\<forall>j < k. ne ! j \<in> set (all_possible_edges g) \<and> ne ! j \<notin> set (drop j ?es))"
  from randomize_graph_result [OF r] obtain ne us ks where
    l: "for_loop_rand (rewire g 1) (py_range (len ?es)) (?es, uniforms, draws) =
          Some (Inr (ne, us, ks))"
    and e: "edges g' = ne" by blast
  have xs: "py_range (len ?es) = map int [0..<?m]"
    by (simp add: len_def py_range_int)
  have "?P (length (map int [0..<?m])) (ne, us, ks)"
  proof (rule for_loop_rand_indexed [where P = ?P, OF l [unfolded xs]])
    show "?P 0 (?es, uniforms, draws)" by simp
  next
    fix k t t'
    assume k: "k < length (map int [0..<?m])" and t: "?P k t"
      and step: "rewire g 1 (map int [0..<?m] ! k) t = Some (Inr t')"
    obtain ne1 us1 ks1 where t1: "t = (ne1, us1, ks1)" by (cases t)
    obtain ne2 us2 ks2 where t2: "t' = (ne2, us2, ks2)" by (cases t')
    from k have km: "k < ?m" by simp
    from t t1 have inv: "length ne1 = ?m" "set us1 \<subseteq> set uniforms" "distinct (take k ne1)"
      "drop k ne1 = drop k ?es"
      "\<And>j. j < k \<Longrightarrow> ne1 ! j \<in> set (all_possible_edges g) \<and> ne1 ! j \<notin> set (drop j ?es)"
      by simp_all
    from step km have step': "rewire g 1 (int k) (ne1, us1, ks1) = Some (Inr (ne2, us2, ks2))"
      by (simp add: t1 t2)
    from rewire_effect [OF step'] km inv(1) obtain u where
      u: "us1 = u # us2"
      and eff: "if u < 1
            then \<exists>e. e \<in> set (all_possible_edges g) \<and> e \<notin> set ne1 \<and> ne2 = ne1[nat (int k) := e]
            else ne2 = ne1 \<and> ks2 = ks1"
      by auto
    from u inv(2) u1 have "u < 1" by auto
    with eff obtain e where e: "e \<in> set (all_possible_edges g)" "e \<notin> set ne1"
      "ne2 = ne1[k := e]" by auto
    have k1: "k < length ne1" using km inv(1) by simp
    have tk: "take (Suc k) ne2 = take k ne1 @ [e]"
      using k1 by (simp add: e(3) take_Suc_conv_app_nth)
    have "e \<notin> set (take k ne1)" using e(2) by (auto dest: in_set_takeD)
    with inv(3) have d: "distinct (take (Suc k) ne2)" by (simp add: tk)
    have dr: "drop (Suc k) ne2 = drop (Suc k) ?es"
    proof -
      have "drop (Suc k) ne2 = drop (Suc k) ne1" by (simp add: e(3))
      also have "\<dots> = drop 1 (drop k ne1)" by simp
      also have "\<dots> = drop 1 (drop k ?es)" by (simp only: inv(4))
      finally show ?thesis by simp
    qed
    have "set (drop k ?es) \<subseteq> set ne1"
      using inv(4) set_drop_subset [of k ne1] by simp
    with e(2) have fresh: "e \<notin> set (drop k ?es)" by blast
    have ent: "ne2 ! j \<in> set (all_possible_edges g) \<and> ne2 ! j \<notin> set (drop j ?es)"
      if "j < Suc k" for j
    proof (cases "j = k")
      case True
      with k1 e(1) fresh show ?thesis by (simp add: e(3))
    next
      case False
      with that have "j < k" by simp
      with inv(5) [of j] show ?thesis by (simp add: e(3))
    qed
    from u inv(2) have "set us2 \<subseteq> set uniforms" by auto
    with inv(1) d dr ent show "?P (Suc k) t'"
      by (simp add: t2 e(3))
  qed
  then have fin: "length ne = ?m" "distinct (take ?m ne)"
    "\<And>j. j < ?m \<Longrightarrow> ne ! j \<in> set (all_possible_edges g) \<and> ne ! j \<notin> set (drop j ?es)"
    by auto
  from fin(1,2) have "distinct ne" by simp
  with fin(1,3) show ?thesis by (simp add: e)
qed

text \<open>
  C8 (amended). With random values in the interval from 0 to 1 (1 excluded):
  \<^verbatim>\<open>randomize_graph(0)\<close> returns the graph unchanged, as soon as the source
  provides one value per edge; and whenever \<^verbatim>\<open>randomize_graph(1)\<close> returns, the
  result has as many edges as the input, every one of them drawn from
  \<open>all_possible_edges\<close> and different from the edge it replaces and from the edges
  not yet replaced, and no edge twice.
\<close>

theorem randomize_graph_extremes:
  assumes "Graph n es = Inr g" and "\<forall>u \<in> set uniforms. 0 \<le> u \<and> u < 1"
  shows "(length es \<le> length uniforms \<longrightarrow> randomize_graph g 0 uniforms draws = Some (Inr g)) \<and>
         (\<forall>g'. randomize_graph g 1 uniforms draws = Some (Inr g') \<longrightarrow>
            length (edges g') = length es \<and> distinct (edges g') \<and>
            (\<forall>i < length es. edges g' ! i \<in> set (all_possible_edges g) \<and>
               edges g' ! i \<notin> set (drop i es)))"
proof -
  from Graph_fields [OF assms(1)] have f: "edges g = es" by simp
  from assms(2) have u0: "\<forall>u \<in> set uniforms. 0 \<le> u" and u1: "\<forall>u \<in> set uniforms. u < 1"
    by simp_all
  show ?thesis
    using randomize_graph_zero [OF assms(1) _ u0, of draws]
      randomize_graph_one [OF _ u1, of g draws] f
    by auto
qed

lemma redraw_single_edge:
  "set draws \<subseteq> {0} \<Longrightarrow> redraw [(0, 1)] [(0, 1)] (0, 1) draws = None"
proof (induction draws)
  case Nil
  show ?case by (simp add: redraw.simps [of _ _ _ "[]"] draw_edge_def randint_def len_def)
next
  case (Cons k draws)
  then have "k = 0" "set draws \<subseteq> {0}" by simp_all
  with Cons.IH show ?case
    by (simp add: redraw.simps [of _ _ _ "0 # draws"] draw_edge_def randint_def len_def
        getitem_def py_index_def)
qed

lemma randomize_graph_single_edge_never_returns:
  assumes "set draws \<subseteq> {0}" and "u < 1"
  shows "randomize_graph single_edge 1 (u # uniforms) draws = None"
proof (cases draws)
  case Nil
  with assms(2) show ?thesis
    by (simp add: randomize_graph_def single_edge_def len_def py_range_def rewire_def
        rand_random_def draw_edge_def randint_def)
next
  case (Cons k rest)
  with assms(1) have "k = 0" "set rest \<subseteq> {0}" by simp_all
  with assms(2) redraw_single_edge [of rest] show ?thesis
    by (simp add: Cons randomize_graph_def single_edge_def len_def py_range_def rewire_def
        rand_random_def draw_edge_def randint_def getitem_def py_index_def)
qed

text \<open>
  C8 as stated fails on the graph of two vertices and one edge: the only possible edge
  is present, every draw is rejected, and \<^verbatim>\<open>randomize_graph(1)\<close> is still in its
  rejection loop when the draws are used up, however many there are
  (\<open>randomize_graph_single_edge_never_returns\<close>).
\<close>

theorem randomize_graph_one_counterexample:
  "Graph 2 [(0, 1)] = Inr single_edge \<and>
   randomize_graph single_edge 1 [1 / 2] [0, 0, 0, 0, 0, 0, 0, 0] = None"
  using Graph_single_edge
    randomize_graph_single_edge_never_returns [of "[0, 0, 0, 0, 0, 0, 0, 0]" "1 / 2" "[]"]
  by simp

text \<open>
  C1 as stated fails on the ring \<^verbatim>\<open>make_graph(3, 1)\<close>, whose edges
  \<open>(0, 2), (1, 0), (2, 1)\<close> are three different unordered pairs: the first edge is
  replaced by the draw \<open>(0, 1)\<close>, which the membership test on tuples does not
  find in the list, and the result holds the pair of 0 and 1 twice.
\<close>

theorem randomize_graph_duplicate_counterexample:
  "make_graph 3 1 = Inr ring3 \<and> distinct (map unordered (edges ring3)) \<and>
   (case randomize_graph ring3 (1 / 2) [0, 9 / 10, 9 / 10] [0] of
      Some (Inr g') \<Rightarrow> edges g' = [(0, 1), (1, 0), (2, 1)] \<and> \<not> distinct (map unordered (edges g'))
    | _ \<Rightarrow> False)"
proof -
  have "distinct (map unordered (edges ring3))"
    by (simp add: ring3_def unordered_def)
  moreover have "randomize_graph ring3 (1 / 2) [0, 9 / 10, 9 / 10] [0] =
      Some (Inr \<lparr>num_vertices = 3, edges = [(0, 1), (1, 0), (2, 1)],
          neighbors = [[1, 1], [0, 0, 2], [1]],
          all_possible_edges = [(0, 1), (0, 2), (1, 2)]\<rparr>)"
    by code_simp
  ultimately show ?thesis
    by (simp add: make_graph_ring3 unordered_def)
qed

lemma randomize_kite_third:
  "randomize_graph kite (1 / 3) [1 / 2, 1 / 4, 1 / 3, 0, 9 / 10] [0, 5, 0, 0, 1] =
     Some (Inr kite_rewired)"
  unfolding kite_rewired_def by code_simp

lemma randomize_kite_one:
  "randomize_graph kite 1 [1 / 2, 0, 1 / 3, 9 / 10, 1 / 4] [0, 5, 0, 0, 1, 3, 4, 2] =
     Some (Inr kite_replaced)"
  unfolding kite_replaced_def by code_simp

theorem randomize_graph_no_duplicates_witness:
  "Graph 4 [(0, 1), (0, 2), (0, 3), (1, 2), (1, 3)] = Inr kite \<and>
   ascending [(0, 1), (0, 2), (0, 3), (1, 2), (1, 3)] \<and>
   distinct [(0, 1), (0, 2), (0, 3), (1, 2), (1, 3) :: edge] \<and>
   randomize_graph kite (1 / 3) [1 / 2, 1 / 4, 1 / 3, 0, 9 / 10] [0, 5, 0, 0, 1] =
     Some (Inr kite_rewired) \<and>
   length (edges kite_rewired) = 5 \<and>
   edges kite_rewired ! 0 = (0, 1) \<and>
   edges kite_rewired ! 1 \<in> set (all_possible_edges kite) \<and>
   ascending (edges kite_rewired) \<and> distinct (map unordered (edges kite_rewired))"
proof -
  have a: "ascending [(0, 1), (0, 2), (0, 3), (1, 2), (1, 3)]"
    by (simp add: ascending_def)
  have d: "distinct [(0, 1), (0, 2), (0, 3), (1, 2), (1, 3) :: edge]"
    by simp
  show ?thesis
    using a d Graph_kite randomize_kite_third
      randomize_graph_no_duplicates [OF Graph_kite a d randomize_kite_third]
    by (simp add: kite_rewired_def kite_def)
qed

theorem randomize_graph_extremes_witness:
  "Graph 4 [(0, 1), (0, 2), (0, 3), (1, 2), (1, 3)] = Inr kite \<and>
   randomize_graph kite 0 [1 / 2, 0, 1 / 3, 9 / 10, 1 / 4] [0, 5, 0, 0, 1, 3, 4, 2] =
     Some (Inr kite) \<and>
   randomize_graph kite 1 [1 / 2, 0, 1 / 3, 9 / 10, 1 / 4] [0, 5, 0, 0, 1, 3, 4, 2] =
     Some (Inr kite_replaced) \<and>
   length (edges kite_replaced) = 5 \<and> distinct (edges kite_replaced) \<and>
   edges kite_replaced ! 0 \<in> set (all_possible_edges kite) \<and>
   edges kite_replaced ! 0 \<notin> set (drop 0 [(0, 1), (0, 2), (0, 3), (1, 2), (1, 3)])"
proof -
  have u: "\<forall>u \<in> set [1 / 2, 0, 1 / 3, 9 / 10, 1 / 4 :: rat]. 0 \<le> u \<and> u < 1"
    by simp
  show ?thesis
    using Graph_kite randomize_kite_one
      randomize_graph_extremes [OF Graph_kite u, of "[0, 5, 0, 0, 1, 3, 4, 2]"]
    by (simp add: kite_replaced_def kite_def)
qed

section \<open>The rewiring generator leaves its graph alone\<close>

lemma unchanged_refl: "unchanged h h"
  by (simp add: unchanged_def)

lemma unchanged_trans: "unchanged h h1 \<Longrightarrow> unchanged h1 h2 \<Longrightarrow> unchanged h h2"
proof -
  assume a: "unchanged h h1" and b: "unchanged h1 h2"
  from a have 1: "length h \<le> length h1" "take (length h) h1 = h" by (simp_all add: unchanged_def)
  from b have 2: "length h1 \<le> length h2" "take (length h1) h2 = h1" by (simp_all add: unchanged_def)
  have "take (length h) h2 = take (length h) (take (length h1) h2)"
    using 1(1) by (simp add: min_def)
  also have "\<dots> = h" by (simp only: 2(2) 1(2))
  finally show ?thesis using 1(1) 2(1) by (simp add: unchanged_def)
qed

lemma unchanged_append: "unchanged h h' \<Longrightarrow> unchanged h (h' @ obs)"
  by (simp add: unchanged_def)

lemma unchanged_update: "unchanged h h' \<Longrightarrow> length h \<le> a \<Longrightarrow> unchanged h (h'[a := ob])"
  by (simp add: unchanged_def take_update_cancel)

lemma unchanged_nth: "unchanged h h' \<Longrightarrow> a < length h \<Longrightarrow> h' ! a = h ! a \<and> a < length h'"
proof -
  assume a: "unchanged h h'" and b: "a < length h"
  from a have 1: "length h \<le> length h'" "take (length h) h' = h" by (simp_all add: unchanged_def)
  have "take (length h) h' ! a = h' ! a" using b by simp
  with 1 b show ?thesis by simp
qed

lemma unchanged_edge_list_at:
  "unchanged h h' \<Longrightarrow> edge_list_at h a = Inr es \<Longrightarrow> edge_list_at h' a = Inr es"
  using unchanged_nth [of h h' a] by (auto simp: edge_list_at_def split: if_splits)

lemma unchanged_int_list_at:
  "unchanged h h' \<Longrightarrow> int_list_at h a = Inr xs \<Longrightarrow> int_list_at h' a = Inr xs"
  using unchanged_nth [of h h' a] by (auto simp: int_list_at_def split: if_splits)

lemma unchanged_ref_list_at:
  "unchanged h h' \<Longrightarrow> ref_list_at h a = Inr rs \<Longrightarrow> ref_list_at h' a = Inr rs"
  using unchanged_nth [of h h' a] by (auto simp: ref_list_at_def split: if_splits)

lemma unchanged_graph_obj_at:
  "unchanged h h' \<Longrightarrow> graph_obj_at h a = Inr go \<Longrightarrow> graph_obj_at h' a = Inr go"
  using unchanged_nth [of h h' a] by (auto simp: graph_obj_at_def split: if_splits)

lemma unchanged_int_lists_at:
  "unchanged h h' \<Longrightarrow> int_lists_at h rs = Inr xss \<Longrightarrow> int_lists_at h' rs = Inr xss"
proof (induction rs arbitrary: xss)
  case Nil
  then show ?case by simp
next
  case (Cons a rs)
  from Cons.prems(2) obtain xs yss where
    a: "int_list_at h a = Inr xs" and r: "int_lists_at h rs = Inr yss" and x: "xss = xs # yss"
    by (auto split: sum.splits)
  from unchanged_int_list_at [OF Cons.prems(1) a] Cons.IH [OF Cons.prems(1) r] x
  show ?case by simp
qed

lemma unchanged_graph_at:
  assumes "unchanged h h'" and "graph_at h a = Inr g"
  shows "graph_at h' a = Inr g"
proof -
  obtain go where 1: "graph_obj_at h a = Inr go"
    using assms(2) by (cases "graph_obj_at h a") (simp_all add: graph_at_def)
  obtain es where 2: "edge_list_at h (edges_attr go) = Inr es"
    using assms(2) by (cases "edge_list_at h (edges_attr go)") (simp_all add: graph_at_def 1)
  obtain rs where 3: "ref_list_at h (neighbors_attr go) = Inr rs"
    using assms(2) by (cases "ref_list_at h (neighbors_attr go)") (simp_all add: graph_at_def 1 2)
  obtain nbrs where 4: "int_lists_at h rs = Inr nbrs"
    using assms(2) by (cases "int_lists_at h rs") (simp_all add: graph_at_def 1 2 3)
  obtain ape where 5: "edge_list_at h (all_possible_edges_attr go) = Inr ape"
    using assms(2)
    by (cases "edge_list_at h (all_possible_edges_attr go)") (simp_all add: graph_at_def 1 2 3 4)
  have g: "g = \<lparr>num_vertices = num_vertices_attr go, edges = es, neighbors = nbrs,
             all_possible_edges = ape\<rparr>"
    using assms(2) by (simp add: graph_at_def 1 2 3 4 5)
  show ?thesis
    using unchanged_graph_obj_at [OF assms(1) 1] unchanged_edge_list_at [OF assms(1) 2]
      unchanged_ref_list_at [OF assms(1) 3] unchanged_int_lists_at [OF assms(1) 4]
      unchanged_edge_list_at [OF assms(1) 5] g
    by (simp add: graph_at_def)
qed

lemma append_at_st_frame:
  assumes "append_at_st nref i x hc = Inr hc'" and "unchanged h hc"
    and "ref_list_at hc nref = Inr rs" and "\<forall>a \<in> set rs. length h \<le> a \<and> a \<noteq> nref"
  shows "unchanged h hc' \<and> ref_list_at hc' nref = Inr rs"
proof -
  from assms(1,3) obtain a xs where a: "getitem rs i = Inr a"
    and hc': "hc' = hc[a := IntList (xs @ [x])]"
    by (auto simp: append_at_st_def split: sum.splits)
  from getitem_Inr [OF a] assms(4) have "length h \<le> a" "a \<noteq> nref" by auto
  with assms(2,3) show ?thesis
    by (auto simp: hc' unchanged_update ref_list_at_def split: if_splits)
qed

lemma add_edge_st_frame:
  assumes "add_edge_st nref e hc = Inr hc'" and "unchanged h hc"
    and "ref_list_at hc nref = Inr rs" and "\<forall>a \<in> set rs. length h \<le> a \<and> a \<noteq> nref"
  shows "unchanged h hc' \<and> ref_list_at hc' nref = Inr rs"
proof -
  from assms(1) obtain h1 where
    1: "append_at_st nref (fst e) (snd e) hc = Inr h1"
    and 2: "append_at_st nref (snd e) (fst e) h1 = Inr hc'"
    by (auto simp: add_edge_st_def split: sum.splits)
  from append_at_st_frame [OF 1 assms(2,3,4)] have "unchanged h h1" "ref_list_at h1 nref = Inr rs"
    by simp_all
  from append_at_st_frame [OF 2 this assms(4)] show ?thesis .
qed

lemma append_edge_st_frame:
  assumes "append_edge_st aref e hc = Inr hc'" and "unchanged h hc" and "length h \<le> aref"
  shows "unchanged h hc'"
  using assms by (auto simp: append_edge_st_def unchanged_update split: sum.splits)

lemma Graph_st_frame:
  assumes "Graph_st h n eref = Inr (gref, h')"
  shows "unchanged h h' \<and> length h \<le> gref \<and>
         (\<exists>go. graph_obj_at h' gref = Inr go \<and> num_vertices_attr go = n \<and> edges_attr go = eref)"
proof -
  define h1 where "h1 = h @ map (\<lambda>i. IntList []) (py_range n)"
  define rs where "rs = [length h..<length h + length (map (\<lambda>i. IntList []) (py_range n))]"
  define nref where "nref = length h1"
  define h2 where "h2 = h1 @ [RefList rs]"
  have G: "Graph_st h n eref =
      (case edge_list_at h2 eref of Inl e \<Rightarrow> Inl e | Inr es \<Rightarrow>
       case for_loop (add_edge_st nref) es h2 of Inl e \<Rightarrow> Inl e | Inr h3 \<Rightarrow>
       case for_loop (\<lambda>a. for_loop (\<lambda>b. append_edge_st (length h3) (b, a)) (py_range a))
              (py_range n) (h3 @ [EdgeList []]) of Inl e \<Rightarrow> Inl e | Inr h5 \<Rightarrow>
         Inr (length h5, h5 @ [GraphObj \<lparr>num_vertices_attr = n, edges_attr = eref,
               neighbors_attr = nref, all_possible_edges_attr = length h3\<rparr>]))"
    unfolding Graph_st_def alloc_def alloc_each_def h1_def rs_def nref_def h2_def
    by (simp cong: sum.case_cong)
  obtain es where es: "edge_list_at h2 eref = Inr es"
    using assms unfolding G by (cases "edge_list_at h2 eref") simp_all
  obtain h3 where l3: "for_loop (add_edge_st nref) es h2 = Inr h3"
    using assms unfolding G es by (cases "for_loop (add_edge_st nref) es h2") simp_all
  obtain h5 where
    l5: "for_loop (\<lambda>a. for_loop (\<lambda>b. append_edge_st (length h3) (b, a)) (py_range a))
             (py_range n) (h3 @ [EdgeList []]) = Inr h5"
    using assms unfolding G es
    by (cases "for_loop (\<lambda>a. for_loop (\<lambda>b. append_edge_st (length h3) (b, a)) (py_range a))
             (py_range n) (h3 @ [EdgeList []])") (simp_all add: l3)
  have gref: "gref = length h5"
    and h': "h' = h5 @ [GraphObj \<lparr>num_vertices_attr = n, edges_attr = eref,
               neighbors_attr = nref, all_possible_edges_attr = length h3\<rparr>]"
    using assms unfolding G es by (simp_all add: l3 l5)
  have u2: "unchanged h h2"
    unfolding h2_def h1_def by (intro unchanged_append unchanged_refl)
  have r2: "ref_list_at h2 nref = Inr rs"
    by (simp add: ref_list_at_def h2_def nref_def)
  have rs: "\<forall>a \<in> set rs. length h \<le> a \<and> a \<noteq> nref"
    by (auto simp: rs_def nref_def h1_def)
  have "unchanged h h3 \<and> ref_list_at h3 nref = Inr rs"
  proof (rule for_loop_invariant
      [where P = "\<lambda>hc. unchanged h hc \<and> ref_list_at hc nref = Inr rs", OF l3])
    show "unchanged h h2 \<and> ref_list_at h2 nref = Inr rs" using u2 r2 by simp
  next
    fix e t t'
    assume "unchanged h t \<and> ref_list_at t nref = Inr rs" "add_edge_st nref e t = Inr t'"
    then show "unchanged h t' \<and> ref_list_at t' nref = Inr rs"
      using add_edge_st_frame [of nref e t t' h rs] rs by blast
  qed
  then have u3: "unchanged h h3" by simp
  then have a3: "length h \<le> length h3" by (simp add: unchanged_def)
  have u4: "unchanged h (h3 @ [EdgeList []])"
    using u3 by (rule unchanged_append)
  have u5: "unchanged h h5"
  proof (rule for_loop_invariant [where P = "unchanged h", OF l5 u4])
    fix a t t'
    assume t: "unchanged h t"
      and inner: "for_loop (\<lambda>b. append_edge_st (length h3) (b, a)) (py_range a) t = Inr t'"
    show "unchanged h t'"
    proof (rule for_loop_invariant [where P = "unchanged h", OF inner t])
      fix b u u'
      assume "unchanged h u" "append_edge_st (length h3) (b, a) u = Inr u'"
      then show "unchanged h u'" using append_edge_st_frame a3 by blast
    qed
  qed
  then have "length h \<le> gref" by (simp add: gref unchanged_def)
  moreover have "unchanged h h'" unfolding h' using u5 by (rule unchanged_append)
  moreover have "graph_obj_at h' gref = Inr \<lparr>num_vertices_attr = n, edges_attr = eref,
               neighbors_attr = nref, all_possible_edges_attr = length h3\<rparr>"
    by (simp add: h' gref graph_obj_at_def)
  ultimately show ?thesis by simp
qed

lemma rewire_st_frame:
  assumes "rewire_st self r p i (hc, us, ks) = Some (Inr (hc', us', ks'))"
    and "unchanged h hc" and "length h \<le> r"
  shows "unchanged h hc'"
proof -
  obtain g where g: "graph_at hc self = Inr g"
    using assms(1) by (cases "graph_at hc self") (simp_all add: rewire_st_def)
  obtain ne where ne: "edge_list_at hc r = Inr ne"
    using assms(1) by (cases "edge_list_at hc r") (simp_all add: rewire_st_def g)
  from assms(1) obtain ne' where "hc' = hc[r := EdgeList ne']"
    by (cases "rewire g p i (ne, us, ks)")
      (auto simp: rewire_st_def g ne split: sum.splits)
  with assms(2,3) show ?thesis by (simp add: unchanged_update)
qed

lemma graph_at_fields:
  "graph_at h a = Inr g \<Longrightarrow>
   \<exists>go. graph_obj_at h a = Inr go \<and> num_vertices_attr go = num_vertices g \<and>
        edge_list_at h (edges_attr go) = Inr (edges g)"
  by (auto simp: graph_at_def split: sum.splits)

text \<open>
  The store model computes what the value model computes: the constructor on the store
  builds the graph value \<open>Graph\<close> builds, and \<^verbatim>\<open>randomize_graph\<close> on the
  store returns the address of the graph value \<open>randomize_graph\<close> returns.
\<close>

lemma int_lists_at_iff:
  "int_lists_at h rs = Inr nbrs \<longleftrightarrow>
     length nbrs = length rs \<and> (\<forall>k < length rs. int_list_at h (rs ! k) = Inr (nbrs ! k))"
proof (induction rs arbitrary: nbrs)
  case Nil
  show ?case by auto
next
  case (Cons a rs)
  show ?case
  proof (cases nbrs)
    case Nil
    then show ?thesis by (auto split: sum.splits)
  next
    case (Cons xs xss)
    have "int_lists_at h (a # rs) = Inr (xs # xss) \<longleftrightarrow>
        int_list_at h a = Inr xs \<and> int_lists_at h rs = Inr xss"
      by (auto split: sum.splits)
    also have "\<dots> \<longleftrightarrow> int_list_at h a = Inr xs \<and> length xss = length rs \<and>
        (\<forall>k < length rs. int_list_at h (rs ! k) = Inr (xss ! k))"
      using Cons.IH [of xss] by simp
    also have "\<dots> \<longleftrightarrow> length (xs # xss) = length (a # rs) \<and>
        (\<forall>k < length (a # rs). int_list_at h ((a # rs) ! k) = Inr ((xs # xss) ! k))"
      by (auto simp: nth_Cons split: nat.splits)
    finally show ?thesis by (simp only: Cons)
  qed
qed

lemma getitem_position:
  "getitem xs i = Inr x \<Longrightarrow> \<exists>k. py_index (length xs) i = Inr k \<and> k < length xs \<and> x = xs ! k"
  by (auto simp: getitem_def split: sum.splits dest: py_index_Inr)

lemma append_at_st_simulates:
  assumes st: "append_at_st nref i x hc = Inr hc'"
    and nb: "int_lists_at hc rs = Inr nbrs" and rl: "ref_list_at hc nref = Inr rs"
    and d: "distinct rs" and n: "nref \<notin> set rs"
  shows "\<exists>nbrs'. append_at nbrs i x = Inr nbrs' \<and> int_lists_at hc' rs = Inr nbrs' \<and>
           ref_list_at hc' nref = Inr rs"
proof -
  from nb have len: "length nbrs = length rs"
    and at: "\<And>k. k < length rs \<Longrightarrow> int_list_at hc (rs ! k) = Inr (nbrs ! k)"
    by (simp_all add: int_lists_at_iff)
  obtain a where a: "getitem rs i = Inr a"
    using st by (cases "getitem rs i") (simp_all add: append_at_st_def rl)
  from getitem_position [OF a] obtain k where
    k: "py_index (length rs) i = Inr k" "k < length rs" "a = rs ! k" by blast
  from at [OF k(2)] k(3) have xs: "int_list_at hc a = Inr (nbrs ! k)" by simp
  with st have hc': "hc' = hc[a := IntList (nbrs ! k @ [x])]"
    by (simp add: append_at_st_def rl a)
  from xs have al: "a < length hc" by (auto simp: int_list_at_def split: if_splits)
  let ?nbrs' = "nbrs[k := nbrs ! k @ [x]]"
  have 1: "append_at nbrs i x = Inr ?nbrs'"
    by (simp add: append_at_def len k(1))
  have "int_list_at hc' (rs ! j) = Inr (?nbrs' ! j)" if "j < length rs" for j
  proof (cases "j = k")
    case True
    then show ?thesis using al k(2,3) len by (simp add: hc' int_list_at_def)
  next
    case False
    with d that k(2,3) have "rs ! j \<noteq> a" by (simp add: nth_eq_iff_index_eq)
    with at [OF that] False show ?thesis
      by (auto simp: hc' int_list_at_def split: if_splits)
  qed
  then have 2: "int_lists_at hc' rs = Inr ?nbrs'"
    by (simp add: int_lists_at_iff len)
  from n k(2,3) have "a \<noteq> nref" by auto
  with rl have 3: "ref_list_at hc' nref = Inr rs"
    by (auto simp: hc' ref_list_at_def split: if_splits)
  from 1 2 3 show ?thesis by blast
qed

lemma add_edge_st_simulates:
  assumes st: "add_edge_st nref e hc = Inr hc'"
    and nb: "int_lists_at hc rs = Inr nbrs" and rl: "ref_list_at hc nref = Inr rs"
    and d: "distinct rs" and n: "nref \<notin> set rs"
  shows "\<exists>nbrs'. add_edge e nbrs = Inr nbrs' \<and> int_lists_at hc' rs = Inr nbrs' \<and>
           ref_list_at hc' nref = Inr rs"
proof -
  obtain h1 where 1: "append_at_st nref (fst e) (snd e) hc = Inr h1"
    using st by (cases "append_at_st nref (fst e) (snd e) hc") (simp_all add: add_edge_st_def)
  with st have 2: "append_at_st nref (snd e) (fst e) h1 = Inr hc'"
    by (simp add: add_edge_st_def)
  from append_at_st_simulates [OF 1 nb rl d n] obtain n1 where
    n1: "append_at nbrs (fst e) (snd e) = Inr n1" "int_lists_at h1 rs = Inr n1"
      "ref_list_at h1 nref = Inr rs" by blast
  from append_at_st_simulates [OF 2 n1(2,3) d n] obtain n2 where
    n2: "append_at n1 (snd e) (fst e) = Inr n2" "int_lists_at hc' rs = Inr n2"
      "ref_list_at hc' nref = Inr rs" by blast
  from n1(1) n2 show ?thesis by (simp add: add_edge_def)
qed

lemma add_edges_st_simulates:
  assumes d: "distinct rs" and n: "nref \<notin> set rs"
  shows "for_loop (add_edge_st nref) es hc = Inr hc' \<Longrightarrow>
         int_lists_at hc rs = Inr nbrs \<Longrightarrow> ref_list_at hc nref = Inr rs \<Longrightarrow>
         \<exists>nbrs'. for_loop add_edge es nbrs = Inr nbrs' \<and> int_lists_at hc' rs = Inr nbrs' \<and>
           ref_list_at hc' nref = Inr rs"
proof (induction es arbitrary: hc nbrs)
  case Nil
  then show ?case by simp
next
  case (Cons e es)
  obtain h1 where 1: "add_edge_st nref e hc = Inr h1"
    using Cons.prems(1) by (cases "add_edge_st nref e hc") simp_all
  with Cons.prems(1) have 2: "for_loop (add_edge_st nref) es h1 = Inr hc'" by simp
  from add_edge_st_simulates [OF 1 Cons.prems(2,3) d n] obtain n1 where
    n1: "add_edge e nbrs = Inr n1" "int_lists_at h1 rs = Inr n1" "ref_list_at h1 nref = Inr rs"
    by blast
  from Cons.IH [OF 2 n1(2,3)] n1(1) show ?case by simp
qed

lemma append_edges_st_result:
  "for_loop (\<lambda>b. append_edge_st aref (f b)) bs hc = Inr hc' \<Longrightarrow>
   edge_list_at hc aref = Inr xs \<Longrightarrow>
   hc' = hc[aref := EdgeList (xs @ map f bs)]"
proof (induction bs arbitrary: hc xs)
  case Nil
  then have "hc' = hc" "aref < length hc" "hc ! aref = EdgeList xs"
    by (auto simp: edge_list_at_def split: if_splits obj.splits)
  then have "hc[aref := EdgeList xs] = hc'"
    by (simp add: list_update_same_conv)
  then show ?case by simp
next
  case (Cons b bs)
  from Cons.prems(2) have al: "aref < length hc"
    by (auto simp: edge_list_at_def split: if_splits)
  let ?h1 = "hc[aref := EdgeList (xs @ [f b])]"
  have 1: "append_edge_st aref (f b) hc = Inr ?h1"
    by (simp add: append_edge_st_def Cons.prems(2))
  with Cons.prems(1) have 2: "for_loop (\<lambda>b. append_edge_st aref (f b)) bs ?h1 = Inr hc'"
    by simp
  have "edge_list_at ?h1 aref = Inr (xs @ [f b])"
    using al by (simp add: edge_list_at_def)
  from Cons.IH [OF 2 this] show ?case by simp
qed

lemma append_all_edges_st_result:
  "for_loop (\<lambda>a. for_loop (\<lambda>b. append_edge_st aref (b, a)) (py_range a)) as hc = Inr hc' \<Longrightarrow>
   edge_list_at hc aref = Inr xs \<Longrightarrow>
   hc' = hc[aref := EdgeList (xs @ concat (map (\<lambda>a. map (\<lambda>b. (b, a)) (py_range a)) as))]"
proof (induction as arbitrary: hc xs)
  case Nil
  then have "hc' = hc" "aref < length hc" "hc ! aref = EdgeList xs"
    by (auto simp: edge_list_at_def split: if_splits obj.splits)
  then have "hc[aref := EdgeList xs] = hc'"
    by (simp add: list_update_same_conv)
  then show ?case by simp
next
  case (Cons a as)
  from Cons.prems(2) have al: "aref < length hc"
    by (auto simp: edge_list_at_def split: if_splits)
  obtain h1 where 1: "for_loop (\<lambda>b. append_edge_st aref (b, a)) (py_range a) hc = Inr h1"
    using Cons.prems(1)
    by (cases "for_loop (\<lambda>b. append_edge_st aref (b, a)) (py_range a) hc") simp_all
  with Cons.prems(1) have 2:
    "for_loop (\<lambda>a. for_loop (\<lambda>b. append_edge_st aref (b, a)) (py_range a)) as h1 = Inr hc'"
    by simp
  from append_edges_st_result [OF 1 Cons.prems(2)]
  have h1: "h1 = hc[aref := EdgeList (xs @ map (\<lambda>b. (b, a)) (py_range a))]" .
  then have "edge_list_at h1 aref = Inr (xs @ map (\<lambda>b. (b, a)) (py_range a))"
    using al by (simp add: edge_list_at_def)
  from Cons.IH [OF 2 this] show ?case by (simp add: h1)
qed

lemma Graph_st_simulates:
  assumes st: "Graph_st h n eref = Inr (gref, h')" and e0: "edge_list_at h eref = Inr es"
  shows "\<exists>g'. Graph n es = Inr g' \<and> graph_at h' gref = Inr g'"
proof -
  define h1 where "h1 = h @ map (\<lambda>i. IntList []) (py_range n)"
  define rs where "rs = [length h..<length h + length (map (\<lambda>i. IntList []) (py_range n))]"
  define nref where "nref = length h1"
  define h2 where "h2 = h1 @ [RefList rs]"
  have G: "Graph_st h n eref =
      (case edge_list_at h2 eref of Inl e \<Rightarrow> Inl e | Inr es \<Rightarrow>
       case for_loop (add_edge_st nref) es h2 of Inl e \<Rightarrow> Inl e | Inr h3 \<Rightarrow>
       case for_loop (\<lambda>a. for_loop (\<lambda>b. append_edge_st (length h3) (b, a)) (py_range a))
              (py_range n) (h3 @ [EdgeList []]) of Inl e \<Rightarrow> Inl e | Inr h5 \<Rightarrow>
         Inr (length h5, h5 @ [GraphObj \<lparr>num_vertices_attr = n, edges_attr = eref,
               neighbors_attr = nref, all_possible_edges_attr = length h3\<rparr>]))"
    unfolding Graph_st_def alloc_def alloc_each_def h1_def rs_def nref_def h2_def
    by (simp cong: sum.case_cong)
  have u2: "unchanged h h2"
    unfolding h2_def h1_def by (intro unchanged_append unchanged_refl)
  have es: "edge_list_at h2 eref = Inr es"
    using u2 e0 by (rule unchanged_edge_list_at)
  obtain h3 where l3: "for_loop (add_edge_st nref) es h2 = Inr h3"
    using st unfolding G es by (cases "for_loop (add_edge_st nref) es h2") simp_all
  obtain h5 where
    l5: "for_loop (\<lambda>a. for_loop (\<lambda>b. append_edge_st (length h3) (b, a)) (py_range a))
             (py_range n) (h3 @ [EdgeList []]) = Inr h5"
    using st unfolding G es
    by (cases "for_loop (\<lambda>a. for_loop (\<lambda>b. append_edge_st (length h3) (b, a)) (py_range a))
             (py_range n) (h3 @ [EdgeList []])") (simp_all add: l3)
  have gref: "gref = length h5"
    and h': "h' = h5 @ [GraphObj \<lparr>num_vertices_attr = n, edges_attr = eref,
               neighbors_attr = nref, all_possible_edges_attr = length h3\<rparr>]"
    using st unfolding G es by (simp_all add: l3 l5)
  let ?init = "map (\<lambda>i. []) (py_range n) :: int list list"
  have d: "distinct rs" and nr: "nref \<notin> set rs"
    by (simp_all add: rs_def nref_def h1_def)
  have r2: "ref_list_at h2 nref = Inr rs"
    by (simp add: ref_list_at_def h2_def nref_def)
  have i2: "int_lists_at h2 rs = Inr ?init"
    unfolding int_lists_at_iff
    by (auto simp: rs_def h2_def h1_def int_list_at_def nth_append)
  from add_edges_st_simulates [OF d nr l3 i2 r2] obtain nbrs where
    nb: "for_loop add_edge es ?init = Inr nbrs" "int_lists_at h3 rs = Inr nbrs"
      "ref_list_at h3 nref = Inr rs" by blast
  have "edge_list_at (h3 @ [EdgeList []]) (length h3) = Inr []"
    by (simp add: edge_list_at_def)
  from append_all_edges_st_result [OF l5 this]
  have h5: "h5 = (h3 @ [EdgeList []])[length h3 := EdgeList (build_all_possible_edges n)]"
    by (simp add: build_all_possible_edges_def)
  have u3: "unchanged h3 h'"
    unfolding h' h5
    by (intro unchanged_append unchanged_update unchanged_refl) simp
  have a: "edge_list_at h' (length h3) = Inr (build_all_possible_edges n)"
    by (simp add: h' h5 edge_list_at_def nth_append)
  have go: "graph_obj_at h' gref = Inr \<lparr>num_vertices_attr = n, edges_attr = eref,
               neighbors_attr = nref, all_possible_edges_attr = length h3\<rparr>"
    by (simp add: h' gref graph_obj_at_def)
  from Graph_st_frame [OF st] have "unchanged h h'" by simp
  from unchanged_edge_list_at [OF this e0] have e': "edge_list_at h' eref = Inr es" .
  have "graph_at h' gref = Inr \<lparr>num_vertices = n, edges = es, neighbors = nbrs,
               all_possible_edges = build_all_possible_edges n\<rparr>"
    using unchanged_ref_list_at [OF u3 nb(3)] unchanged_int_lists_at [OF u3 nb(2)]
    by (simp add: graph_at_def go e' a)
  moreover have "Graph n es = Inr \<lparr>num_vertices = n, edges = es, neighbors = nbrs,
               all_possible_edges = build_all_possible_edges n\<rparr>"
    by (simp add: Graph_def nb(1))
  ultimately show ?thesis by simp
qed

lemma rewire_loop_st_simulates:
  assumes g: "graph_at h self = Inr g" and r: "length h \<le> r"
  shows "for_loop_rand (rewire_st self r p) xs (hc, us, ks) = Some (Inr (h2, us', ks')) \<Longrightarrow>
         unchanged h hc \<Longrightarrow> edge_list_at hc r = Inr ne \<Longrightarrow>
         \<exists>ne'. for_loop_rand (rewire g p) xs (ne, us, ks) = Some (Inr (ne', us', ks')) \<and>
           edge_list_at h2 r = Inr ne' \<and> unchanged h h2"
proof (induction xs arbitrary: hc us ks ne)
  case Nil
  then show ?case by simp
next
  case (Cons i xs)
  obtain t where t: "rewire_st self r p i (hc, us, ks) = Some (Inr t)"
    and rest: "for_loop_rand (rewire_st self r p) xs t = Some (Inr (h2, us', ks'))"
    using Cons.prems(1)
    by (cases "rewire_st self r p i (hc, us, ks)") (auto split: sum.splits)
  obtain h1 us1 ks1 where t1: "t = (h1, us1, ks1)" by (cases t)
  have gc: "graph_at hc self = Inr g"
    using Cons.prems(2) g by (rule unchanged_graph_at)
  from t obtain ne1 where
    p1: "rewire g p i (ne, us, ks) = Some (Inr (ne1, us1, ks1))"
    and h1: "h1 = hc[r := EdgeList ne1]"
    unfolding t1
    by (cases "rewire g p i (ne, us, ks)")
      (auto simp: rewire_st_def gc Cons.prems(3) split: sum.splits)
  from Cons.prems(3) have "r < length hc"
    by (auto simp: edge_list_at_def split: if_splits)
  then have e1: "edge_list_at h1 r = Inr ne1"
    by (simp add: h1 edge_list_at_def)
  have u1: "unchanged h h1"
    unfolding h1 using Cons.prems(2) r by (rule unchanged_update)
  from Cons.IH [OF rest [unfolded t1] u1 e1] obtain ne' where
    "for_loop_rand (rewire g p) xs (ne1, us1, ks1) = Some (Inr (ne', us', ks'))"
    "edge_list_at h2 r = Inr ne'" "unchanged h h2" by blast
  with p1 show ?case by simp
qed

lemma randomize_graph_st_simulates:
  assumes "graph_at h self = Inr g"
    and "randomize_graph_st h self p uniforms draws = Some (Inr (r, h'))"
  shows "\<exists>g'. randomize_graph g p uniforms draws = Some (Inr g') \<and> graph_at h' r = Inr g'"
proof -
  from graph_at_fields [OF assms(1)] obtain go where
    go: "graph_obj_at h self = Inr go" "num_vertices_attr go = num_vertices g"
    "edge_list_at h (edges_attr go) = Inr (edges g)" by blast
  define h1 where "h1 = h @ [EdgeList (edges g)]"
  have R: "randomize_graph_st h self p uniforms draws =
      (case for_loop_rand (rewire_st self (length h) p) (py_range (len (edges g)))
              (h1, uniforms, draws) of
         None \<Rightarrow> None
       | Some (Inl e) \<Rightarrow> Some (Inl e)
       | Some (Inr (h2, uniforms', draws')) \<Rightarrow>
           (case graph_obj_at h2 self of Inl e \<Rightarrow> Some (Inl e) | Inr go' \<Rightarrow>
              Some (Graph_st h2 (num_vertices_attr go') (length h))))"
    unfolding randomize_graph_st_def alloc_def h1_def
    by (simp add: go split: option.splits sum.splits prod.splits)
  obtain h2 us ks where
    l: "for_loop_rand (rewire_st self (length h) p) (py_range (len (edges g)))
          (h1, uniforms, draws) = Some (Inr (h2, us, ks))"
    using assms(2) unfolding R
    by (cases "for_loop_rand (rewire_st self (length h) p) (py_range (len (edges g)))
          (h1, uniforms, draws)") (auto split: sum.splits)
  obtain go' where go': "graph_obj_at h2 self = Inr go'"
    using assms(2) unfolding R l by (cases "graph_obj_at h2 self") simp_all
  have c: "Graph_st h2 (num_vertices_attr go') (length h) = Inr (r, h')"
    using assms(2) unfolding R l by (simp add: go')
  have u1: "unchanged h h1" unfolding h1_def by (intro unchanged_append unchanged_refl)
  have e1: "edge_list_at h1 (length h) = Inr (edges g)"
    by (simp add: h1_def edge_list_at_def)
  from rewire_loop_st_simulates [OF assms(1) le_refl l u1 e1] obtain ne where
    pl: "for_loop_rand (rewire g p) (py_range (len (edges g))) (edges g, uniforms, draws) =
          Some (Inr (ne, us, ks))"
    and e2: "edge_list_at h2 (length h) = Inr ne" and u2: "unchanged h h2"
    by blast
  from unchanged_graph_obj_at [OF u2 go(1)] go' have "go' = go" by simp
  with c go(2) have c': "Graph_st h2 (num_vertices g) (length h) = Inr (r, h')" by simp
  from Graph_st_simulates [OF c' e2] obtain g' where
    "Graph (num_vertices g) ne = Inr g'" "graph_at h' r = Inr g'" by blast
  with pl show ?thesis by (simp add: randomize_graph_def)
qed

text \<open>
  C9. A call of \<^verbatim>\<open>randomize_graph(p)\<close> on a graph in the store that returns leaves
  every object the store held as it was, so the source graph still has the vertex
  count, edges, neighbours and possible edges it had; the graph returned is a new
  object, at an address the store did not have, over a new edge list, with the vertex
  count of the source.
\<close>

theorem randomize_graph_leaves_source_unchanged:
  assumes "graph_at h self = Inr g"
    and "randomize_graph_st h self p uniforms draws = Some (Inr (r, h'))"
  shows "take (length h) h' = h \<and> graph_at h' self = Inr g \<and> length h \<le> r \<and>
         (\<exists>go. graph_obj_at h' r = Inr go \<and> num_vertices_attr go = num_vertices g \<and>
               length h \<le> edges_attr go) \<and>
         (\<exists>g'. graph_at h' r = Inr g' \<and> num_vertices g' = num_vertices g \<and>
               randomize_graph g p uniforms draws = Some (Inr g'))"
proof -
  from graph_at_fields [OF assms(1)] obtain go where
    go: "graph_obj_at h self = Inr go" "num_vertices_attr go = num_vertices g"
    "edge_list_at h (edges_attr go) = Inr (edges g)" by blast
  define h1 where "h1 = h @ [EdgeList (edges g)]"
  have R: "randomize_graph_st h self p uniforms draws =
      (case for_loop_rand (rewire_st self (length h) p) (py_range (len (edges g)))
              (h1, uniforms, draws) of
         None \<Rightarrow> None
       | Some (Inl e) \<Rightarrow> Some (Inl e)
       | Some (Inr (h2, uniforms', draws')) \<Rightarrow>
           (case graph_obj_at h2 self of Inl e \<Rightarrow> Some (Inl e) | Inr go' \<Rightarrow>
              Some (Graph_st h2 (num_vertices_attr go') (length h))))"
    unfolding randomize_graph_st_def alloc_def h1_def
    by (simp add: go split: option.splits sum.splits prod.splits)
  obtain h2 us ks where
    l: "for_loop_rand (rewire_st self (length h) p) (py_range (len (edges g)))
          (h1, uniforms, draws) = Some (Inr (h2, us, ks))"
    using assms(2) unfolding R
    by (cases "for_loop_rand (rewire_st self (length h) p) (py_range (len (edges g)))
          (h1, uniforms, draws)") (auto split: sum.splits)
  obtain go' where go': "graph_obj_at h2 self = Inr go'"
    using assms(2) unfolding R l by (cases "graph_obj_at h2 self") simp_all
  have c: "Graph_st h2 (num_vertices_attr go') (length h) = Inr (r, h')"
    using assms(2) unfolding R l by (simp add: go')
  have u1: "unchanged h h1" unfolding h1_def by (intro unchanged_append unchanged_refl)
  have "(\<lambda>s. unchanged h (fst s)) (h2, us, ks)"
  proof (rule for_loop_rand_invariant [where P = "\<lambda>s. unchanged h (fst s)", OF l])
    show "unchanged h (fst (h1, uniforms, draws))" using u1 by simp
  next
    fix i t t'
    assume "unchanged h (fst t)" "rewire_st self (length h) p i t = Some (Inr t')"
    then show "unchanged h (fst t')"
      using rewire_st_frame [of self "length h" p i "fst t" "fst (snd t)" "snd (snd t)"
          "fst t'" "fst (snd t')" "snd (snd t')" h]
      by simp
  qed
  then have u2: "unchanged h h2" by simp
  from unchanged_graph_obj_at [OF u2 go(1)] go' have same: "go' = go" by simp
  from Graph_st_frame [OF c] obtain gn where
    u3: "unchanged h2 h'" and r: "length h2 \<le> r"
    and gn: "graph_obj_at h' r = Inr gn" "num_vertices_attr gn = num_vertices_attr go'"
      "edges_attr gn = length h"
    by blast
  from unchanged_trans [OF u2 u3] have u: "unchanged h h'" .
  moreover from u2 r have "length h \<le> r" by (simp add: unchanged_def)
  moreover note unchanged_graph_at [OF u assms(1)]
  moreover have "\<exists>g'. graph_at h' r = Inr g' \<and> num_vertices g' = num_vertices g \<and>
      randomize_graph g p uniforms draws = Some (Inr g')"
  proof -
    from randomize_graph_st_simulates [OF assms] obtain g' where
      g': "randomize_graph g p uniforms draws = Some (Inr g')" "graph_at h' r = Inr g'"
      by blast
    from randomize_graph_result [OF g'(1)] have "num_vertices g' = num_vertices g" by blast
    with g' show ?thesis by blast
  qed
  ultimately show ?thesis
    using gn same go(2) by (auto simp: unchanged_def)
qed

lemma Graph_st_example: "Graph_st [EdgeList [(0, 1)]] 3 0 = Inr (6, example_store)"
  unfolding example_store_def by code_simp

lemma graph_at_example: "graph_at example_store 6 = Inr lone_edge"
  unfolding example_store_def lone_edge_def by code_simp

lemma randomize_graph_st_example:
  "randomize_graph_st example_store 6 1 [1 / 2] [0, 2] = Some (Inr (13, example_store_after))"
  unfolding example_store_after_def example_store_def by code_simp

theorem randomize_graph_leaves_source_unchanged_witness:
  "graph_at example_store 6 = Inr lone_edge \<and>
   randomize_graph_st example_store 6 1 [1 / 2] [0, 2] = Some (Inr (13, example_store_after)) \<and>
   take (length example_store) example_store_after = example_store \<and>
   graph_at example_store_after 6 = Inr lone_edge \<and>
   length example_store \<le> 13 \<and>
   (\<exists>go. graph_obj_at example_store_after 13 = Inr go \<and>
         num_vertices_attr go = num_vertices lone_edge \<and>
         length example_store \<le> edges_attr go) \<and>
   (\<exists>g'. graph_at example_store_after 13 = Inr g' \<and>
         num_vertices g' = num_vertices lone_edge \<and>
         randomize_graph lone_edge 1 [1 / 2] [0, 2] = Some (Inr g'))"
  using graph_at_example randomize_graph_st_example
    randomize_graph_leaves_source_unchanged [OF graph_at_example randomize_graph_st_example]
  by simp

end
